theory Spec2Isabelle
  imports Complex_Main "HOL-Library.Word"
begin

section \<open>Floating-point values\<close>

text \<open>
  QC.cpp computes in C \<open>float\<close>. The model keeps the values that decide the control and
  the shape of the results: the finite numbers, the two infinities and NaN, with the IEEE 754
  rules for the special values. A finite result is the exact real number: rounding, overflow
  and underflow of finite results are left out of these operations, and the section on
  binary32 arithmetic adds them for the claim that depends on them. There is one zero, the
  positive one; every divisor in QC.cpp is a count or a sum of square roots, which is never
  the negative zero.
\<close>

datatype float = Fin real | PInf | NInf | NaN

fun is_finite :: "float \<Rightarrow> bool" where
  "is_finite (Fin a) = True"
| "is_finite PInf = False"
| "is_finite NInf = False"
| "is_finite NaN = False"

fun fneg :: "float \<Rightarrow> float" where
  "fneg (Fin a) = Fin (- a)"
| "fneg PInf = NInf"
| "fneg NInf = PInf"
| "fneg NaN = NaN"

fun fadd :: "float \<Rightarrow> float \<Rightarrow> float" where
  "fadd (Fin a) (Fin b) = Fin (a + b)"
| "fadd (Fin a) PInf = PInf"
| "fadd (Fin a) NInf = NInf"
| "fadd PInf (Fin b) = PInf"
| "fadd PInf PInf = PInf"
| "fadd PInf NInf = NaN"
| "fadd NInf (Fin b) = NInf"
| "fadd NInf PInf = NaN"
| "fadd NInf NInf = NInf"
| "fadd NaN b = NaN"
| "fadd a NaN = NaN"

definition fsub :: "float \<Rightarrow> float \<Rightarrow> float" where
  "fsub a b = fadd a (fneg b)"

fun fmul :: "float \<Rightarrow> float \<Rightarrow> float" where
  "fmul (Fin a) (Fin b) = Fin (a * b)"
| "fmul (Fin a) PInf = (if a = 0 then NaN else if 0 < a then PInf else NInf)"
| "fmul (Fin a) NInf = (if a = 0 then NaN else if 0 < a then NInf else PInf)"
| "fmul PInf (Fin b) = (if b = 0 then NaN else if 0 < b then PInf else NInf)"
| "fmul NInf (Fin b) = (if b = 0 then NaN else if 0 < b then NInf else PInf)"
| "fmul PInf PInf = PInf"
| "fmul PInf NInf = NInf"
| "fmul NInf PInf = NInf"
| "fmul NInf NInf = PInf"
| "fmul NaN b = NaN"
| "fmul a NaN = NaN"

fun fdiv :: "float \<Rightarrow> float \<Rightarrow> float" where
  "fdiv (Fin a) (Fin b) =
     (if b = 0 then (if a = 0 then NaN else if 0 < a then PInf else NInf)
      else Fin (a / b))"
| "fdiv (Fin a) PInf = Fin 0"
| "fdiv (Fin a) NInf = Fin 0"
| "fdiv PInf (Fin b) = (if 0 \<le> b then PInf else NInf)"
| "fdiv NInf (Fin b) = (if 0 \<le> b then NInf else PInf)"
| "fdiv PInf PInf = NaN"
| "fdiv PInf NInf = NaN"
| "fdiv NInf PInf = NaN"
| "fdiv NInf NInf = NaN"
| "fdiv NaN b = NaN"
| "fdiv a NaN = NaN"

fun fsqrt :: "float \<Rightarrow> float" where
  "fsqrt (Fin a) = (if a < 0 then NaN else Fin (sqrt a))"
| "fsqrt PInf = PInf"
| "fsqrt NInf = NaN"
| "fsqrt NaN = NaN"

text \<open>Conversions to \<open>float\<close>: of a \<open>uint16_t\<close> intensity, of an unsigned count, of an \<open>int\<close>.\<close>

definition float_of_uint16 :: "16 word \<Rightarrow> float" where
  "float_of_uint16 w = Fin (real (unat w))"

definition float_of_uint :: "nat \<Rightarrow> float" where
  "float_of_uint n = Fin (real n)"

definition float_of_int :: "int \<Rightarrow> float" where
  "float_of_int i = Fin (real_of_int i)"


section \<open>The record source\<close>

text \<open>
  Class \<open>Sim\<close> (Sim.h, Sim.cpp) is not among the sources. QC.cpp reads its header fields
  \<open>numProbes\<close>, \<open>numChannels\<close>, \<open>numSamples\<close>, \<open>numberFormat\<close> and \<open>sampleNameSize\<close>, the
  class constant \<open>Sim::SAMPLE_NAME_SIZE\<close>, and calls \<open>reset\<close> and the two overloads of
  \<open>getNextRecord\<close>. Sim.h fixes the widths of the header counts; here they are natural
  numbers, and the index \<open>i * numChannels + j\<close>, an \<open>int\<close> in QC.cpp, is computed on them: the
  same number for a record of fewer than \<open>2^31\<close> values. The value of
  \<open>Sim::SAMPLE_NAME_SIZE\<close> is a field of the handle, so that every theorem holds for any
  value of the constant. QC.cpp uses \<open>sampleNameSize\<close> only as the size of the buffer that
  \<open>getNextRecord\<close> fills with the name.

  A record is a sample name and its intensities in one of the two encodings. The handle
  carries, next to the cursor, the history of the calls made on it.
\<close>

datatype intensities = FloatValues "float list" | IntValues "16 word list"

datatype event = Reset | Read nat

datatype error =
    EndOfData        \<comment> \<open>the record source has no further record\<close>
  | FormatMismatch   \<comment> \<open>the record is not in the encoding of the overload that reads it\<close>
  | OutOfRange       \<comment> \<open>\<open>std::out_of_range\<close> thrown by \<open>vector::at\<close>, never caught\<close>
  | ChannelCount     \<comment> \<open>the message and \<open>exit(1)\<close> of \<open>writeXydiff\<close>\<close>

record sim =
  numProbes :: nat
  numChannels :: nat
  numSamples :: nat
  numberFormat :: nat
  sampleNameSize :: nat
  SAMPLE_NAME_SIZE :: nat
  records :: "(string \<times> intensities) list"
  cursor :: nat
  history :: "event list"

text \<open>
  Modelled from the spec: \<open>Sim::reset\<close>, missing from the sources. "Repositions the read
  cursor to the first record; must be callable at any time, including before any read."
\<close>

definition reset :: "sim \<Rightarrow> sim" where
  "reset s = s\<lparr>cursor := 0, history := history s @ [Reset]\<rparr>"

text \<open>
  Modelled from the spec: the reading step shared by the two overloads of
  \<open>Sim::getNextRecord\<close>, missing from the sources. "Returns the next record in insertion
  order; fails with EndOfData once all declared samples have been read", and a source with
  fewer records than declared is exhausted at its last record.
\<close>

definition next_record :: "sim \<Rightarrow> error + ((string \<times> intensities) \<times> sim)" where
  "next_record s =
     (if cursor s < numSamples s \<and> cursor s < length (records s)
      then Inr (records s ! cursor s,
                s\<lparr>cursor := Suc (cursor s), history := history s @ [Read (cursor s)]\<rparr>)
      else Inl EndOfData)"

text \<open>
  Modelled from the spec: \<open>Sim::getNextRecord(char *, vector<float> *)\<close>, missing from the
  sources. It delivers the sample name and the intensities of a floating-point record. The
  encoding of a record is that of the header's tag (spec, section 3); a record in the other
  encoding is outside that contract and is the error \<open>FormatMismatch\<close>.
\<close>

definition getNextRecord_float :: "sim \<Rightarrow> error + (string \<times> float list \<times> sim)" where
  "getNextRecord_float s =
     (case next_record s of
        Inl e \<Rightarrow> Inl e
      | Inr ((name, FloatValues fs), s') \<Rightarrow> Inr (name, fs, s')
      | Inr ((name, IntValues ws), s') \<Rightarrow> Inl FormatMismatch)"

text \<open>
  Modelled from the spec: \<open>Sim::getNextRecord(char *, vector<uint16_t> *)\<close>, missing from
  the sources; the same for a fixed-point record.
\<close>

definition getNextRecord_int :: "sim \<Rightarrow> error + (string \<times> 16 word list \<times> sim)" where
  "getNextRecord_int s =
     (case next_record s of
        Inl e \<Rightarrow> Inl e
      | Inr ((name, IntValues ws), s') \<Rightarrow> Inr (name, ws, s')
      | Inr ((name, FloatValues fs), s') \<Rightarrow> Inl FormatMismatch)"

section \<open>Control: errors and counted loops\<close>

definition bindE :: "error + 'a \<Rightarrow> ('a \<Rightarrow> error + 'b) \<Rightarrow> error + 'b" where
  "bindE m f = (case m of Inl e \<Rightarrow> Inl e | Inr x \<Rightarrow> f x)"

fun foldE :: "('a \<Rightarrow> 's \<Rightarrow> error + 's) \<Rightarrow> 'a list \<Rightarrow> 's \<Rightarrow> error + 's" where
  "foldE f [] s = Inr s"
| "foldE f (x # xs) s = (case f x s of Inl e \<Rightarrow> Inl e | Inr s' \<Rightarrow> foldE f xs s')"

text \<open>\<open>for (i = 0; i < n; i++) body\<close>, where the body may throw.\<close>

definition for_range :: "nat \<Rightarrow> (nat \<Rightarrow> 's \<Rightarrow> error + 's) \<Rightarrow> 's \<Rightarrow> error + 's" where
  "for_range n body s = foldE body [0..<n] s"

text \<open>\<open>vector::at\<close>: the element, or \<open>std::out_of_range\<close>.\<close>

definition vector_at :: "'a list \<Rightarrow> nat \<Rightarrow> error + 'a" where
  "vector_at xs index = (if index < length xs then Inr (xs ! index) else Inl OutOfRange)"

section \<open>The table of sample names\<close>

text \<open>
  \<open>char sampleNames[numSamples][Sim::SAMPLE_NAME_SIZE + 1]\<close> is one block of memory, row
  after row: row \<open>i\<close> starts at cell \<open>i * (Sim::SAMPLE_NAME_SIZE + 1)\<close>. A cell holds a
  character of a name, or the terminator of a C string, which is \<open>None\<close>.
\<close>

type_synonym cell = "char option"

definition row_width :: "sim \<Rightarrow> nat" where
  "row_width s = SAMPLE_NAME_SIZE s + 1"

text \<open>
  \<open>strcpy(dest, src)\<close> writes the characters of \<open>src\<close> and the terminator from the cell
  \<open>dest\<close> on. It makes no test of the length, and QC.cpp makes none before the call: a name
  longer than a row runs into the next row, and a name that runs past the last row is
  written to the memory behind the table, which the block grows to hold.
\<close>

definition strcpy :: "cell list \<Rightarrow> nat \<Rightarrow> string \<Rightarrow> cell list" where
  "strcpy mem dest src =
     (let n = dest + length src + 1;
          mem' = mem @ replicate (n - length mem) None
      in take dest mem' @ map Some src @ [None] @ drop n mem')"

text \<open>
  The C string that starts at a cell, as \<open>%s\<close> prints it: the characters up to the first
  terminator.
\<close>

definition c_string :: "cell list \<Rightarrow> nat \<Rightarrow> string" where
  "c_string mem start = map the (takeWhile (\<lambda>c. c \<noteq> None) (drop start mem))"

section \<open>QC.cpp\<close>

text \<open>
  The \<open>verbose\<close> parameter only adds progress messages on the error stream and is left out.
  Raw arrays are lists of their allocated length; \<open>calloc\<close> gives zeros.
\<close>

text \<open>The value \<open>signal\<close> read in \<open>getNextMagnitudes\<close>: the branch on \<open>numberFormat\<close>.\<close>

definition signal_at :: "nat \<Rightarrow> float list \<Rightarrow> 16 word list \<Rightarrow> nat \<Rightarrow> error + float" where
  "signal_at fmt intensity_float intensity_int index =
     (if fmt = 0 then vector_at intensity_float index
      else bindE (vector_at intensity_int index) (\<lambda>w. Inr (float_of_uint16 w)))"

definition getNextMagnitudes :: "float list \<Rightarrow> sim \<Rightarrow> error + (float list \<times> string \<times> sim)" where
  "getNextMagnitudes magnitudes s =
     bindE (if numberFormat s = 0
            then bindE (getNextRecord_float s) (\<lambda>(name, fs, s'). Inr (name, fs, [], s'))
            else bindE (getNextRecord_int s) (\<lambda>(name, ws, s'). Inr (name, [], ws, s')))
       (\<lambda>(sampleName, intensity_float, intensity_int, s').
          bindE (for_range (numProbes s')
                   (\<lambda>i magnitudes.
                      bindE (for_range (numChannels s')
                               (\<lambda>j total.
                                  bindE (signal_at (numberFormat s') intensity_float intensity_int
                                           (i * numChannels s' + j))
                                    (\<lambda>signal. Inr (fadd total (fmul signal signal))))
                               (Fin 0))
                        (\<lambda>total. Inr (magnitudes[i := fsqrt total])))
                   magnitudes)
            (\<lambda>magnitudes. Inr (magnitudes, sampleName, s')))"

definition magnitudeByProbe :: "float list \<Rightarrow> sim \<Rightarrow> error + (float list \<times> sim)" where
  "magnitudeByProbe magByProbe s =
     bindE (for_range (numSamples s)
              (\<lambda>i (magByProbe, magnitudes, s).
                 bindE (getNextMagnitudes magnitudes s)
                   (\<lambda>(magnitudes, sampleName, s).
                      Inr (fold (\<lambda>j magByProbe.
                                   magByProbe[j := fadd (magByProbe ! j) (magnitudes ! j)])
                             [0..<numProbes s] magByProbe,
                           magnitudes, s)))
              (magByProbe, replicate (numProbes s) (Fin 0), s))
       (\<lambda>(magByProbe, magnitudes, s).
          Inr (fold (\<lambda>i magByProbe.
                       magByProbe[i := fdiv (magByProbe ! i) (float_of_uint (numSamples s))])
                 [0..<numProbes s] magByProbe,
               s))"

definition magnitudeBySample ::
  "float list \<Rightarrow> float list \<Rightarrow> cell list \<Rightarrow> sim \<Rightarrow> error + (float list \<times> cell list \<times> sim)"
where
  "magnitudeBySample magBySample magByProbe sampleNames s =
     bindE (for_range (numSamples s)
              (\<lambda>i (magBySample, sampleNames, magnitudes, s).
                 bindE (getNextMagnitudes magnitudes s)
                   (\<lambda>(magnitudes, sampleName, s).
                      let sampleNames = strcpy sampleNames (i * row_width s) sampleName;
                          mag = fold (\<lambda>j mag. fadd mag (fdiv (magnitudes ! j) (magByProbe ! j)))
                                  [0..<numProbes s] (Fin 0)
                      in Inr (magBySample[i := fdiv mag (float_of_uint (numProbes s))],
                              sampleNames, magnitudes, s)))
              (magBySample, sampleNames, replicate (numProbes s) (Fin 0), s))
       (\<lambda>(magBySample, sampleNames, magnitudes, s). Inr (magBySample, sampleNames, s))"

text \<open>
  The lines \<open>writeMagnitude\<close> and \<open>writeXydiff\<close> print are the pairs of a sample name and
  its metric; their result is these lines, in order, and the handle. The output file is
  opened after the computation, so an error leaves no file. Line \<open>i\<close> prints the C string
  at row \<open>i\<close> of \<open>sampleNames\<close>. The table is not initialised; every row is written before
  the lines are printed, and what the cells hold before has no part in the lines.
\<close>

definition output_lines :: "sim \<Rightarrow> cell list \<Rightarrow> float list \<Rightarrow> (string \<times> float) list" where
  "output_lines s sampleNames metric =
     map (\<lambda>i. (c_string sampleNames (i * row_width s), metric ! i))
       [0..<numSamples s]"

definition writeMagnitude :: "sim \<Rightarrow> error + ((string \<times> float) list \<times> sim)" where
  "writeMagnitude s0 =
     (let s = reset s0;
          probeMagArray = replicate (numProbes s) (Fin 0)
      in bindE (magnitudeByProbe probeMagArray s)
           (\<lambda>(probeMagArray, s).
              let sampleMagArray = replicate (numSamples s) (Fin 0);
                  sampleNames = replicate (numSamples s * row_width s) None;
                  s = reset s
              in bindE (magnitudeBySample sampleMagArray probeMagArray sampleNames s)
                   (\<lambda>(sampleMagArray, sampleNames, s).
                      Inr (output_lines s sampleNames sampleMagArray, s))))"

definition xydiffBySample ::
  "float list \<Rightarrow> cell list \<Rightarrow> sim \<Rightarrow> error + (float list \<times> cell list \<times> sim)"
where
  "xydiffBySample xydBySample sampleNames s =
     for_range (numSamples s)
       (\<lambda>i (xydBySample, sampleNames, s).
          bindE (if numberFormat s = 0
                 then bindE (getNextRecord_float s) (\<lambda>(name, fs, s'). Inr (name, fs, [], s'))
                 else bindE (getNextRecord_int s) (\<lambda>(name, ws, s'). Inr (name, [], ws, s')))
            (\<lambda>(sampleName, intensity_float, intensity_int, s).
               let sampleNames = strcpy sampleNames (i * row_width s) sampleName
               in bindE (for_range (numProbes s)
                           (\<lambda>j xydTotal.
                              let index = j * numChannels s
                              in bindE (if numberFormat s = 0
                                        then bindE (vector_at intensity_float (index + 1))
                                               (\<lambda>a. bindE (vector_at intensity_float index)
                                                  (\<lambda>b. Inr (fsub a b)))
                                        else bindE (vector_at intensity_int (index + 1))
                                               (\<lambda>a. bindE (vector_at intensity_int index)
                                                  (\<lambda>b. Inr (float_of_int (uint a - uint b)))))
                                   (\<lambda>xyd. Inr (fadd xydTotal xyd)))
                           (Fin 0))
                    (\<lambda>xydTotal.
                       Inr (xydBySample[i := fdiv xydTotal (float_of_uint (numProbes s))],
                            sampleNames, s))))
       (xydBySample, sampleNames, s)"

definition writeXydiff :: "sim \<Rightarrow> error + ((string \<times> float) list \<times> sim)" where
  "writeXydiff s0 =
     (if numChannels s0 \<noteq> 2 then Inl ChannelCount
      else
        let s = reset s0;
            xydArray = replicate (numSamples s) (Fin 0);
            sampleNames = replicate (numSamples s * row_width s) None
        in bindE (xydiffBySample xydArray sampleNames s)
             (\<lambda>(xydArray, sampleNames, s).
                Inr (output_lines s sampleNames xydArray, s)))"

section \<open>Datasets\<close>

text \<open>The intensities of a record as numbers, whichever the encoding.\<close>

definition numeric_values :: "intensities \<Rightarrow> float list" where
  "numeric_values v = (case v of FloatValues fs \<Rightarrow> fs | IntValues ws \<Rightarrow> map float_of_uint16 ws)"

text \<open>The vector a fixed-point record delivers.\<close>

definition int_values :: "intensities \<Rightarrow> 16 word list" where
  "int_values v = (case v of FloatValues fs \<Rightarrow> [] | IntValues ws \<Rightarrow> ws)"

text \<open>A record is in the encoding the header's tag announces: 0 is floating point.\<close>

definition matches_format :: "nat \<Rightarrow> intensities \<Rightarrow> bool" where
  "matches_format fmt v = (case v of FloatValues fs \<Rightarrow> fmt = 0 | IntValues ws \<Rightarrow> fmt \<noteq> 0)"

text \<open>
  A handle holds a dataset when its source has the \<open>N\<close> declared records, each in the
  encoding of the header with its \<open>P * C\<close> values, and each name fits a row of
  \<open>sampleNames\<close>. The cursor and the history are free.
\<close>

definition well_formed :: "sim \<Rightarrow> bool" where
  "well_formed s =
     (numSamples s \<le> length (records s) \<and>
      list_all (\<lambda>(name, v). length name \<le> SAMPLE_NAME_SIZE s \<and>
                            matches_format (numberFormat s) v \<and>
                            numProbes s * numChannels s \<le> length (numeric_values v))
        (take (numSamples s) (records s)))"

text \<open>The values and the names of the \<open>N\<close> samples, in the order of the source.\<close>

definition sample_values :: "sim \<Rightarrow> float list list" where
  "sample_values s = map (\<lambda>(name, v). numeric_values v) (take (numSamples s) (records s))"

definition sample_names :: "sim \<Rightarrow> string list" where
  "sample_names s = map fst (take (numSamples s) (records s))"

text \<open>The table \<open>mem\<close> after the names of the first \<open>k\<close> samples are copied to their rows.\<close>

definition stored_names :: "sim \<Rightarrow> nat \<Rightarrow> cell list \<Rightarrow> cell list" where
  "stored_names s k mem =
     fold (\<lambda>i mem. strcpy mem (i * row_width s) (sample_names s ! i)) [0..<k] mem"

text \<open>The handle after one read, and after \<open>k\<close> reads.\<close>

definition read_step :: "sim \<Rightarrow> sim" where
  "read_step s = s\<lparr>cursor := Suc (cursor s), history := history s @ [Read (cursor s)]\<rparr>"

definition advance :: "nat \<Rightarrow> sim \<Rightarrow> sim" where
  "advance k s = s\<lparr>cursor := cursor s + k, history := history s @ map Read [cursor s..<cursor s + k]\<rparr>"

text \<open>What a computation yields, apart from the handle, and the handle it leaves.\<close>

definition outcome :: "error + ('a \<times> sim) \<Rightarrow> error + 'a" where
  "outcome r = map_sum id fst r"

definition handle_after :: "error + ('a \<times> sim) \<Rightarrow> sim option" where
  "handle_after r = (case r of Inl e \<Rightarrow> None | Inr (x, s) \<Rightarrow> Some s)"

text \<open>
  \<open>scaled k s s'\<close>: the dataset of \<open>s'\<close> is that of \<open>s\<close> with every intensity
  multiplied by \<open>k\<close>, in the same encoding and with the same names.
\<close>

definition scaled :: "real \<Rightarrow> sim \<Rightarrow> sim \<Rightarrow> bool" where
  "scaled k s s' \<longleftrightarrow>
     numProbes s' = numProbes s \<and> numChannels s' = numChannels s \<and>
     numSamples s' = numSamples s \<and> numberFormat s' = numberFormat s \<and>
     sample_names s' = sample_names s \<and>
     sample_values s' = map (map (fmul (Fin k))) (sample_values s)"

section \<open>The formulas of the specification\<close>

text \<open>
  These definitions follow the words of the specification, not the code. Sums add from the
  left, starting at zero; the mean of a list is its sum divided by its length.
\<close>

definition fsum :: "float list \<Rightarrow> float" where
  "fsum xs = foldl fadd (Fin 0) xs"

definition fmean :: "float list \<Rightarrow> float" where
  "fmean xs = fdiv (fsum xs) (float_of_uint (length xs))"

text \<open>
  The magnitude of probe \<open>i\<close> in a sample of values \<open>v\<close> with \<open>C\<close> channels:
  \<open>sqrt (\<Sum>j<C. value(i,j)\<^sup>2)\<close>, where \<open>value(i,j)\<close> is at \<open>i * C + j\<close>.
\<close>

definition spec_magnitude :: "nat \<Rightarrow> float list \<Rightarrow> nat \<Rightarrow> float" where
  "spec_magnitude C v i = fsqrt (fsum (map (\<lambda>j. fmul (v ! (i * C + j)) (v ! (i * C + j))) [0..<C]))"

text \<open>The baseline of probe \<open>i\<close>: the mean of its magnitude over the samples \<open>vs\<close>.\<close>

definition spec_baseline :: "nat \<Rightarrow> float list list \<Rightarrow> nat \<Rightarrow> float" where
  "spec_baseline C vs i = fmean (map (\<lambda>v. spec_magnitude C v i) vs)"

text \<open>
  The normalized magnitude of a sample of values \<open>v\<close>: the mean over the \<open>P\<close> probes of
  its magnitude divided by the baseline of the probe.
\<close>

definition spec_sample_magnitude :: "nat \<Rightarrow> nat \<Rightarrow> float list list \<Rightarrow> float list \<Rightarrow> float" where
  "spec_sample_magnitude P C vs v =
     fmean (map (\<lambda>i. fdiv (spec_magnitude C v i) (spec_baseline C vs i)) [0..<P])"

text \<open>The same mean for any array \<open>B\<close> of baselines, as pass 2 receives it.\<close>

definition normalized :: "nat \<Rightarrow> nat \<Rightarrow> float list \<Rightarrow> float list \<Rightarrow> float" where
  "normalized P C B v = fmean (map (\<lambda>i. fdiv (spec_magnitude C v i) (B ! i)) [0..<P])"

definition spec_magnitude_output :: "sim \<Rightarrow> (string \<times> float) list" where
  "spec_magnitude_output s =
     zip (sample_names s)
       (map (spec_sample_magnitude (numProbes s) (numChannels s) (sample_values s))
          (sample_values s))"

text \<open>
  The xydiff of a sample: the mean over the probes of the value of channel 1 minus the
  value of channel 0.
\<close>

definition spec_xydiff :: "nat \<Rightarrow> nat \<Rightarrow> float list \<Rightarrow> float" where
  "spec_xydiff P C v = fmean (map (\<lambda>i. fsub (v ! (i * C + 1)) (v ! (i * C))) [0..<P])"

section \<open>Binary32 arithmetic\<close>

text \<open>
  A C \<open>float\<close> is an IEEE 754 binary32 number: a significand of 24 bits and, for the
  normal numbers, an exponent from \<open>-126\<close> to \<open>127\<close>. Every operation returns the number
  nearest to its exact result, a tie going to the even significand; a result that reaches
  \<open>2^128\<close> after rounding is an infinity. The operations of the first section leave
  this rounding out. It decides the claim on rescaling the intensities, so it is given here
  and the magnitude computation is embedded a second time, with rounded operations.
\<close>

text \<open>The integer nearest to \<open>y\<close>, the even one of two that are equally near.\<close>

definition round_half_even :: "real \<Rightarrow> int" where
  "round_half_even y =
     (let f = \<lfloor>y\<rfloor>; d = y - of_int f
      in if d < 1 / 2 then f else if 1 / 2 < d then f + 1 else if even f then f else f + 1)"

text \<open>The multiple of \<open>q\<close> nearest to \<open>x\<close>.\<close>

definition nearest :: "real \<Rightarrow> real \<Rightarrow> real" where
  "nearest q x = q * of_int (round_half_even (x / q))"

text \<open>
  The binary32 numbers around \<open>x\<close> are the multiples of \<open>quantum32 x\<close>: 24 bits below the
  leading bit of \<open>x\<close>, and \<open>2^-149\<close> for the subnormal numbers.
\<close>

definition quantum32 :: "real \<Rightarrow> real" where
  "quantum32 x = 2 powr (of_int (max \<lfloor>log 2 \<bar>x\<bar>\<rfloor> (- 126)) - 23)"

text \<open>The binary32 value of an operation whose exact result is \<open>x\<close>.\<close>

definition round32 :: "real \<Rightarrow> float" where
  "round32 x =
     (if x = 0 then Fin 0
      else let r = nearest (quantum32 x) x
           in if 2 ^ 128 \<le> \<bar>r\<bar> then (if 0 < x then PInf else NInf) else Fin r)"

text \<open>
  The same rounding to 24 bits with no bound on the exponent: no overflow and no subnormal
  numbers. It agrees with \<open>round32\<close> on every result in the range of the normal numbers.
\<close>

definition quantum24 :: "real \<Rightarrow> real" where
  "quantum24 x = 2 powr (of_int \<lfloor>log 2 \<bar>x\<bar>\<rfloor> - 23)"

definition round24 :: "real \<Rightarrow> float" where
  "round24 x = (if x = 0 then Fin 0 else Fin (nearest (quantum24 x) x))"

text \<open>
  An operation in rounded arithmetic is the operation of the first section followed by the
  rounding \<open>rnd\<close> of a finite result. \<open>count_r\<close> is the conversion of a count to
  \<open>float\<close>.
\<close>

definition rounded :: "(real \<Rightarrow> float) \<Rightarrow> float \<Rightarrow> float" where
  "rounded rnd a = (case a of Fin x \<Rightarrow> rnd x | PInf \<Rightarrow> PInf | NInf \<Rightarrow> NInf | NaN \<Rightarrow> NaN)"

definition fadd_r :: "(real \<Rightarrow> float) \<Rightarrow> float \<Rightarrow> float \<Rightarrow> float" where
  "fadd_r rnd a b = rounded rnd (fadd a b)"

definition fmul_r :: "(real \<Rightarrow> float) \<Rightarrow> float \<Rightarrow> float \<Rightarrow> float" where
  "fmul_r rnd a b = rounded rnd (fmul a b)"

definition fdiv_r :: "(real \<Rightarrow> float) \<Rightarrow> float \<Rightarrow> float \<Rightarrow> float" where
  "fdiv_r rnd a b = rounded rnd (fdiv a b)"

definition fsqrt_r :: "(real \<Rightarrow> float) \<Rightarrow> float \<Rightarrow> float" where
  "fsqrt_r rnd a = rounded rnd (fsqrt a)"

definition count_r :: "(real \<Rightarrow> float) \<Rightarrow> nat \<Rightarrow> float" where
  "count_r rnd n = rounded rnd (float_of_uint n)"

text \<open>\<open>scales rnd c\<close>: the rounding commutes with the multiplication by \<open>c\<close>.\<close>

definition scales :: "(real \<Rightarrow> float) \<Rightarrow> real \<Rightarrow> bool" where
  "scales rnd c \<longleftrightarrow> (\<forall>x. rnd (c * x) = fmul (Fin c) (rnd x))"

subsection \<open>The magnitude computation in rounded arithmetic\<close>

text \<open>
  \<open>getNextMagnitudes\<close>, \<open>magnitudeByProbe\<close>, \<open>magnitudeBySample\<close> and \<open>writeMagnitude\<close>
  again, with every operation of QC.cpp on \<open>float\<close> values rounded by \<open>rnd\<close>: the
  square, the sums, the square root, the quotients and the conversion of \<open>numSamples\<close> and
  \<open>numProbes\<close>. With \<open>round32\<close> this is the arithmetic of the program. The conversion of
  a \<open>uint16_t\<close> intensity is exact, and a value of a floating-point record is a
  \<open>float\<close> as it is read.
\<close>

definition getNextMagnitudes_r ::
  "(real \<Rightarrow> float) \<Rightarrow> float list \<Rightarrow> sim \<Rightarrow> error + (float list \<times> string \<times> sim)" where
  "getNextMagnitudes_r rnd magnitudes s =
     bindE (if numberFormat s = 0
            then bindE (getNextRecord_float s) (\<lambda>(name, fs, s'). Inr (name, fs, [], s'))
            else bindE (getNextRecord_int s) (\<lambda>(name, ws, s'). Inr (name, [], ws, s')))
       (\<lambda>(sampleName, intensity_float, intensity_int, s').
          bindE (for_range (numProbes s')
                   (\<lambda>i magnitudes.
                      bindE (for_range (numChannels s')
                               (\<lambda>j total.
                                  bindE (signal_at (numberFormat s') intensity_float intensity_int
                                           (i * numChannels s' + j))
                                    (\<lambda>signal. Inr (fadd_r rnd total (fmul_r rnd signal signal))))
                               (Fin 0))
                        (\<lambda>total. Inr (magnitudes[i := fsqrt_r rnd total])))
                   magnitudes)
            (\<lambda>magnitudes. Inr (magnitudes, sampleName, s')))"

definition magnitudeByProbe_r ::
  "(real \<Rightarrow> float) \<Rightarrow> float list \<Rightarrow> sim \<Rightarrow> error + (float list \<times> sim)" where
  "magnitudeByProbe_r rnd magByProbe s =
     bindE (for_range (numSamples s)
              (\<lambda>i (magByProbe, magnitudes, s).
                 bindE (getNextMagnitudes_r rnd magnitudes s)
                   (\<lambda>(magnitudes, sampleName, s).
                      Inr (fold (\<lambda>j magByProbe.
                                   magByProbe[j := fadd_r rnd (magByProbe ! j) (magnitudes ! j)])
                             [0..<numProbes s] magByProbe,
                           magnitudes, s)))
              (magByProbe, replicate (numProbes s) (Fin 0), s))
       (\<lambda>(magByProbe, magnitudes, s).
          Inr (fold (\<lambda>i magByProbe.
                       magByProbe[i := fdiv_r rnd (magByProbe ! i) (count_r rnd (numSamples s))])
                 [0..<numProbes s] magByProbe,
               s))"

definition magnitudeBySample_r ::
  "(real \<Rightarrow> float) \<Rightarrow> float list \<Rightarrow> float list \<Rightarrow> cell list \<Rightarrow> sim \<Rightarrow> error + (float list \<times> cell list \<times> sim)"
where
  "magnitudeBySample_r rnd magBySample magByProbe sampleNames s =
     bindE (for_range (numSamples s)
              (\<lambda>i (magBySample, sampleNames, magnitudes, s).
                 bindE (getNextMagnitudes_r rnd magnitudes s)
                   (\<lambda>(magnitudes, sampleName, s).
                      let sampleNames = strcpy sampleNames (i * row_width s) sampleName;
                          mag = fold (\<lambda>j mag. fadd_r rnd mag (fdiv_r rnd (magnitudes ! j) (magByProbe ! j)))
                                  [0..<numProbes s] (Fin 0)
                      in Inr (magBySample[i := fdiv_r rnd mag (count_r rnd (numProbes s))],
                              sampleNames, magnitudes, s)))
              (magBySample, sampleNames, replicate (numProbes s) (Fin 0), s))
       (\<lambda>(magBySample, sampleNames, magnitudes, s). Inr (magBySample, sampleNames, s))"

definition writeMagnitude_r ::
  "(real \<Rightarrow> float) \<Rightarrow> sim \<Rightarrow> error + ((string \<times> float) list \<times> sim)" where
  "writeMagnitude_r rnd s0 =
     (let s = reset s0;
          probeMagArray = replicate (numProbes s) (Fin 0)
      in bindE (magnitudeByProbe_r rnd probeMagArray s)
           (\<lambda>(probeMagArray, s).
              let sampleMagArray = replicate (numSamples s) (Fin 0);
                  sampleNames = replicate (numSamples s * row_width s) None;
                  s = reset s
              in bindE (magnitudeBySample_r rnd sampleMagArray probeMagArray sampleNames s)
                   (\<lambda>(sampleMagArray, sampleNames, s).
                      Inr (output_lines s sampleNames sampleMagArray, s))))"

text \<open>The formulas of the specification with the rounded operations.\<close>

definition fsum_r ::
  "(real \<Rightarrow> float) \<Rightarrow> float list \<Rightarrow> float" where
  "fsum_r rnd xs = foldl (fadd_r rnd) (Fin 0) xs"

definition fmean_r ::
  "(real \<Rightarrow> float) \<Rightarrow> float list \<Rightarrow> float" where
  "fmean_r rnd xs = fdiv_r rnd (fsum_r rnd xs) (count_r rnd (length xs))"

definition spec_magnitude_r ::
  "(real \<Rightarrow> float) \<Rightarrow> nat \<Rightarrow> float list \<Rightarrow> nat \<Rightarrow> float" where
  "spec_magnitude_r rnd C v i = fsqrt_r rnd (fsum_r rnd (map (\<lambda>j. fmul_r rnd (v ! (i * C + j)) (v ! (i * C + j))) [0..<C]))"

definition spec_baseline_r ::
  "(real \<Rightarrow> float) \<Rightarrow> nat \<Rightarrow> float list list \<Rightarrow> nat \<Rightarrow> float" where
  "spec_baseline_r rnd C vs i = fmean_r rnd (map (\<lambda>v. spec_magnitude_r rnd C v i) vs)"

definition spec_sample_magnitude_r ::
  "(real \<Rightarrow> float) \<Rightarrow> nat \<Rightarrow> nat \<Rightarrow> float list list \<Rightarrow> float list \<Rightarrow> float" where
  "spec_sample_magnitude_r rnd P C vs v =
     fmean_r rnd (map (\<lambda>i. fdiv_r rnd (spec_magnitude_r rnd C v i) (spec_baseline_r rnd C vs i)) [0..<P])"

definition normalized_r ::
  "(real \<Rightarrow> float) \<Rightarrow> nat \<Rightarrow> nat \<Rightarrow> float list \<Rightarrow> float list \<Rightarrow> float" where
  "normalized_r rnd P C B v = fmean_r rnd (map (\<lambda>i. fdiv_r rnd (spec_magnitude_r rnd C v i) (B ! i)) [0..<P])"

definition spec_magnitude_output_r ::
  "(real \<Rightarrow> float) \<Rightarrow> sim \<Rightarrow> (string \<times> float) list" where
  "spec_magnitude_output_r rnd s =
     zip (sample_names s)
       (map (spec_sample_magnitude_r rnd (numProbes s) (numChannels s) (sample_values s))
          (sample_values s))"

subsection \<open>The range of the exponent\<close>

text \<open>
  The definitions of this subsection serve the proof that a computation stays within the
  range of the normal binary32 numbers, where \<open>round32\<close> and \<open>round24\<close> agree.
  \<open>value24 x\<close> is the number that \<open>round24\<close> returns for \<open>x \<noteq> 0\<close>.
\<close>

definition value24 :: "real \<Rightarrow> real" where
  "value24 x = nearest (quantum24 x) x"

text \<open>
  \<open>in_range lo hi a\<close>: the value \<open>a\<close> is zero, or a finite number from \<open>lo\<close> to
  \<open>hi\<close>, or one of the special values that a division by a zero baseline yields, which
  every operation and every rounding leave special.
\<close>

definition in_range :: "real \<Rightarrow> real \<Rightarrow> float \<Rightarrow> bool" where
  "in_range lo hi a =
     (case a of Fin x \<Rightarrow> x = 0 \<or> (lo \<le> x \<and> x \<le> hi) | PInf \<Rightarrow> True | NInf \<Rightarrow> False
      | NaN \<Rightarrow> True)"

text \<open>Bounds that are numbers of 24 bits in the range of the normal binary32 numbers.\<close>

definition normal_bounds :: "real \<Rightarrow> real \<Rightarrow> bool" where
  "normal_bounds lo hi \<longleftrightarrow>
     2 powr (- 126) \<le> lo \<and> hi < 2 ^ 128 \<and> round24 lo = Fin lo \<and> round24 hi = Fin hi"

definition p2 :: "int \<Rightarrow> real" where
  "p2 k = 2 powr of_int k"

text \<open>
  \<open>safe a b f\<close>: the computation \<open>f\<close>, a function of the rounding, has the same result
  with \<open>round32\<close> and with \<open>round24\<close>, and this result is in the range from
  \<open>2^a\<close> to \<open>2^b\<close>.
\<close>

definition safe :: "int \<Rightarrow> int \<Rightarrow> ((real \<Rightarrow> float) \<Rightarrow> float) \<Rightarrow> bool" where
  "safe a b f \<longleftrightarrow> f round32 = f round24 \<and> in_range (p2 a) (p2 b) (f round24)"

text \<open>
  An intensity is moderate when it is zero or finite with a magnitude from \<open>2^-33\<close> to
  \<open>2^33\<close>; every \<open>uint16_t\<close> intensity is. A dataset is within range when its
  intensities are moderate, it has fewer than \<open>2^24\<close> samples, probes and channels, so
  that every count is a binary32 number, and a record has fewer than \<open>2^31\<close> values, so
  that the \<open>int index\<close> of \<open>getNextMagnitudes\<close> holds every index.
\<close>

definition moderate :: "float \<Rightarrow> bool" where
  "moderate a =
     (case a of Fin x \<Rightarrow> x = 0 \<or> (1 / 2 ^ 33 \<le> \<bar>x\<bar> \<and> \<bar>x\<bar> \<le> 2 ^ 33) | PInf \<Rightarrow> False
      | NInf \<Rightarrow> False | NaN \<Rightarrow> False)"

definition within_range :: "sim \<Rightarrow> bool" where
  "within_range s \<longleftrightarrow>
     list_all (list_all moderate) (sample_values s) \<and>
     numSamples s < 2 ^ 24 \<and> numProbes s < 2 ^ 24 \<and> numChannels s < 2 ^ 24 \<and>
     numProbes s * numChannels s < 2 ^ 31"

section \<open>Concrete datasets\<close>

text \<open>
  The scenario of the specification: two probes, two channels, two samples in the
  fixed-point encoding, \<open>S1 = [(3,4),(0,0)]\<close> and \<open>S2 = [(0,0),(6,8)]\<close>; and the same in
  the floating-point encoding.
\<close>

definition scenario :: sim where
  "scenario =
     \<lparr>numProbes = 2, numChannels = 2, numSamples = 2, numberFormat = 1, sampleNameSize = 40,
      SAMPLE_NAME_SIZE = 40,
      records = [(''S1'', IntValues [3, 4, 0, 0]), (''S2'', IntValues [0, 0, 6, 8])],
      cursor = 0, history = []\<rparr>"

definition scenario_float :: sim where
  "scenario_float =
     \<lparr>numProbes = 2, numChannels = 2, numSamples = 2, numberFormat = 0, sampleNameSize = 40,
      SAMPLE_NAME_SIZE = 40,
      records = [(''S1'', FloatValues [Fin 3, Fin 4, Fin 0, Fin 0]),
                 (''S2'', FloatValues [Fin 0, Fin 0, Fin 6, Fin 8])],
      cursor = 0, history = []\<rparr>"

text \<open>A fixed-point sample whose first probe has a larger channel 0 than channel 1.\<close>

definition inverted :: sim where
  "inverted =
     \<lparr>numProbes = 2, numChannels = 2, numSamples = 1, numberFormat = 1, sampleNameSize = 40,
      SAMPLE_NAME_SIZE = 40,
      records = [(''S1'', IntValues [4, 3, 0, 0])],
      cursor = 0, history = []\<rparr>"

text \<open>Two degenerate datasets: one with no sample, one with a sample and no probe.\<close>

definition no_samples :: sim where
  "no_samples =
     \<lparr>numProbes = 2, numChannels = 2, numSamples = 0, numberFormat = 1, sampleNameSize = 40,
      SAMPLE_NAME_SIZE = 40, records = [], cursor = 0, history = []\<rparr>"

definition no_probes :: sim where
  "no_probes =
     \<lparr>numProbes = 0, numChannels = 2, numSamples = 1, numberFormat = 1, sampleNameSize = 40,
      SAMPLE_NAME_SIZE = 40, records = [(''S1'', IntValues [])], cursor = 0, history = []\<rparr>"

text \<open>A dataset with three channels.\<close>

definition three_channels :: sim where
  "three_channels =
     \<lparr>numProbes = 1, numChannels = 3, numSamples = 1, numberFormat = 1, sampleNameSize = 40,
      SAMPLE_NAME_SIZE = 40, records = [(''S1'', IntValues [1, 2, 3])], cursor = 0, history = []\<rparr>"

text \<open>A sample whose first probe has no intensity: the baseline of that probe is zero.\<close>

definition zero_baseline :: sim where
  "zero_baseline =
     \<lparr>numProbes = 2, numChannels = 2, numSamples = 1, numberFormat = 1, sampleNameSize = 40,
      SAMPLE_NAME_SIZE = 40, records = [(''S1'', IntValues [0, 0, 3, 4])],
      cursor = 0, history = []\<rparr>"


text \<open>
  The floating-point scenario with every intensity multiplied by \<open>2^64\<close>; the products
  are binary32 numbers.
\<close>

definition scenario_huge :: sim where
  "scenario_huge =
     \<lparr>numProbes = 2, numChannels = 2, numSamples = 2, numberFormat = 0, sampleNameSize = 40,
      SAMPLE_NAME_SIZE = 40,
      records = [(''S1'', FloatValues [Fin (3 * 2 ^ 64), Fin (4 * 2 ^ 64), Fin 0, Fin 0]),
                 (''S2'', FloatValues [Fin 0, Fin 0, Fin (6 * 2 ^ 64), Fin (8 * 2 ^ 64)])],
      cursor = 0, history = []\<rparr>"

text \<open>
  Three fixed-point samples of one probe with the magnitudes 5, 6 and 6, whose mean
  \<open>17/3\<close> is not a binary32 number; the same with every intensity doubled, and with every
  intensity multiplied by 5.
\<close>

definition uneven :: sim where
  "uneven =
     \<lparr>numProbes = 1, numChannels = 2, numSamples = 3, numberFormat = 1, sampleNameSize = 40,
      SAMPLE_NAME_SIZE = 40,
      records = [(''S1'', IntValues [5, 0]), (''S2'', IntValues [6, 0]), (''S3'', IntValues [6, 0])],
      cursor = 0, history = []\<rparr>"

definition uneven_doubled :: sim where
  "uneven_doubled =
     \<lparr>numProbes = 1, numChannels = 2, numSamples = 3, numberFormat = 1, sampleNameSize = 40,
      SAMPLE_NAME_SIZE = 40,
      records = [(''S1'', IntValues [10, 0]), (''S2'', IntValues [12, 0]),
                 (''S3'', IntValues [12, 0])],
      cursor = 0, history = []\<rparr>"

definition uneven_times_five :: sim where
  "uneven_times_five =
     \<lparr>numProbes = 1, numChannels = 2, numSamples = 3, numberFormat = 1, sampleNameSize = 40,
      SAMPLE_NAME_SIZE = 40,
      records = [(''S1'', IntValues [25, 0]), (''S2'', IntValues [30, 0]),
                 (''S3'', IntValues [30, 0])],
      cursor = 0, history = []\<rparr>"

section \<open>Loops and arrays\<close>

lemma bindE_Inr [simp]: "bindE (Inr x) f = f x"
  by (simp add: bindE_def)

lemma bindE_Inl [simp]: "bindE (Inl e) f = Inl e"
  by (simp add: bindE_def)

lemma foldE_append: "foldE f (xs @ ys) s = bindE (foldE f xs s) (foldE f ys)"
  by (induction xs arbitrary: s) (auto split: sum.splits)

lemma for_range_0 [simp]: "for_range 0 f s = Inr s"
  by (simp add: for_range_def)

lemma foldE_single: "foldE f [x] = f x"
  by (rule ext) (simp split: sum.splits)

lemma for_range_Suc: "for_range (Suc n) f s = bindE (for_range n f s) (f n)"
  by (simp add: for_range_def foldE_append foldE_single del: foldE.simps)

lemma foldE_pure:
  "(\<And>x t. x \<in> set xs \<Longrightarrow> f x t = Inr (g x t)) \<Longrightarrow> foldE f xs s = Inr (fold g xs s)"
  by (induction xs arbitrary: s) auto

lemma for_range_pure:
  "(\<And>i t. i < n \<Longrightarrow> f i t = Inr (g i t)) \<Longrightarrow> for_range n f s = Inr (fold g [0..<n] s)"
  unfolding for_range_def by (rule foldE_pure) simp

lemma fold_accumulate: "fold (\<lambda>x t. fadd t (h x)) xs t0 = foldl fadd t0 (map h xs)"
  by (induction xs arbitrary: t0) auto

lemma fold_update_each:
  "n \<le> length m \<Longrightarrow>
   fold (\<lambda>i m. m[i := g i (m ! i)]) [0..<n] m = map (\<lambda>i. g i (m ! i)) [0..<n] @ drop n m"
proof (induction n)
  case 0
  then show ?case by simp
next
  case (Suc n)
  then have n: "n < length m" by simp
  have d: "drop n m = m ! n # drop (Suc n) m"
    using n by (simp add: Cons_nth_drop_Suc)
  show ?case
    using Suc.IH n by (simp add: d list_update_append nth_append)
qed

lemma fold_update_all:
  "length m = n \<Longrightarrow> fold (\<lambda>i m. m[i := g i (m ! i)]) [0..<n] m = map (\<lambda>i. g i (m ! i)) [0..<n]"
  using fold_update_each [of n m g] by simp

lemma index_in_range: "i < P \<Longrightarrow> j < C \<Longrightarrow> i * C + j < P * (C::nat)"
proof -
  assume i: "i < P" and j: "j < C"
  have "i * C + j < Suc i * C" using j by simp
  also have "\<dots> \<le> P * C" using i by (intro mult_le_mono1) simp
  finally show ?thesis .
qed

lemma signal_at_values:
  "matches_format fmt v \<Longrightarrow> k < length (numeric_values v) \<Longrightarrow>
   signal_at fmt (case v of FloatValues fs \<Rightarrow> fs | IntValues ws \<Rightarrow> [])
                 (case v of FloatValues fs \<Rightarrow> [] | IntValues ws \<Rightarrow> ws) k
     = Inr (numeric_values v ! k)"
  by (cases v) (simp_all add: signal_at_def vector_at_def numeric_values_def matches_format_def)

lemma getNextMagnitudes_value:
  assumes c: "cursor s < numSamples s" "cursor s < length (records s)"
    and r: "records s ! cursor s = (name, v)"
    and m: "matches_format (numberFormat s) v"
    and l: "numProbes s * numChannels s \<le> length (numeric_values v)"
    and g: "length mags = numProbes s"
  shows "getNextMagnitudes mags s =
           Inr (map (spec_magnitude (numChannels s) (numeric_values v)) [0..<numProbes s],
                name, read_step s)"
proof -
  let ?fl = "case v of FloatValues fs \<Rightarrow> fs | IntValues ws \<Rightarrow> []"
  let ?in = "case v of FloatValues fs \<Rightarrow> [] | IntValues ws \<Rightarrow> ws"
  let ?vs = "numeric_values v"
  let ?C = "numChannels s" and ?P = "numProbes s"
  have rd: "(if numberFormat s = 0
            then bindE (getNextRecord_float s) (\<lambda>(name, fs, s'). Inr (name, fs, [], s'))
            else bindE (getNextRecord_int s) (\<lambda>(name, ws, s'). Inr (name, [], ws, s')))
          = Inr (name, ?fl, ?in, read_step s)"
    using c r m
    by (cases v)
       (simp_all add: getNextRecord_float_def getNextRecord_int_def next_record_def
          matches_format_def read_step_def)
  have inner: "for_range ?C
                 (\<lambda>j total. bindE (signal_at (numberFormat s) ?fl ?in (i * ?C + j))
                                (\<lambda>signal. Inr (fadd total (fmul signal signal))))
                 (Fin 0)
               = Inr (fsum (map (\<lambda>j. fmul (?vs ! (i * ?C + j)) (?vs ! (i * ?C + j))) [0..<?C]))"
    if "i < ?P" for i
  proof -
    have "for_range ?C
                 (\<lambda>j total. bindE (signal_at (numberFormat s) ?fl ?in (i * ?C + j))
                                (\<lambda>signal. Inr (fadd total (fmul signal signal))))
                 (Fin 0)
          = Inr (fold (\<lambda>j total. fadd total (fmul (?vs ! (i * ?C + j)) (?vs ! (i * ?C + j))))
                   [0..<?C] (Fin 0))"
    proof (rule for_range_pure)
      fix j t assume "j < ?C"
      with that l have "i * ?C + j < length ?vs"
        using index_in_range [of i ?P j ?C] by simp
      then show "bindE (signal_at (numberFormat s) ?fl ?in (i * ?C + j))
                   (\<lambda>signal. Inr (fadd t (fmul signal signal)))
                 = Inr (fadd t (fmul (?vs ! (i * ?C + j)) (?vs ! (i * ?C + j))))"
        using m by (simp add: signal_at_values)
    qed
    then show ?thesis by (simp add: fold_accumulate fsum_def)
  qed
  have outer: "for_range ?P
                 (\<lambda>i magnitudes.
                    bindE (for_range ?C
                             (\<lambda>j total. bindE (signal_at (numberFormat s) ?fl ?in (i * ?C + j))
                                (\<lambda>signal. Inr (fadd total (fmul signal signal))))
                             (Fin 0))
                      (\<lambda>total. Inr (magnitudes[i := fsqrt total])))
                 mags
               = Inr (fold (\<lambda>i m. m[i := spec_magnitude ?C ?vs i]) [0..<?P] mags)"
    by (rule for_range_pure) (simp add: inner spec_magnitude_def)
  show ?thesis
    unfolding getNextMagnitudes_def rd
    using g by (simp add: read_step_def outer fold_update_all [where g = "\<lambda>i x. spec_magnitude ?C ?vs i"])
qed

lemma advance_0 [simp]: "advance 0 s = s"
  by (simp add: advance_def)

lemma read_step_advance: "read_step (advance k s) = advance (Suc k) s"
  by (simp add: read_step_def advance_def)

lemma advance_fields [simp]:
  "numProbes (advance k s) = numProbes s"
  "numChannels (advance k s) = numChannels s"
  "numSamples (advance k s) = numSamples s"
  "numberFormat (advance k s) = numberFormat s"
  "SAMPLE_NAME_SIZE (advance k s) = SAMPLE_NAME_SIZE s"
  "records (advance k s) = records s"
  "cursor (advance k s) = cursor s + k"
  by (simp_all add: advance_def)

lemma well_formed_nth:
  assumes "well_formed s" "k < numSamples s"
  obtains name v where "records s ! k = (name, v)" "length name \<le> SAMPLE_NAME_SIZE s"
    "matches_format (numberFormat s) v" "numProbes s * numChannels s \<le> length (numeric_values v)"
    "k < length (records s)"
proof -
  from assms have len: "k < length (records s)" by (simp add: well_formed_def)
  obtain name v where r: "records s ! k = (name, v)" by (cases "records s ! k")
  from assms len have "(take (numSamples s) (records s)) ! k \<in> set (take (numSamples s) (records s))"
    by (intro nth_mem) simp
  with assms r have "length name \<le> SAMPLE_NAME_SIZE s \<and> matches_format (numberFormat s) v \<and>
      numProbes s * numChannels s \<le> length (numeric_values v)"
    by (auto simp: well_formed_def list_all_iff)
  with r len that show thesis by blast
qed

lemma sample_values_nth:
  "well_formed s \<Longrightarrow> k < numSamples s \<Longrightarrow> records s ! k = (name, v) \<Longrightarrow>
   sample_values s ! k = numeric_values v"
  by (simp add: sample_values_def well_formed_def)

lemma length_sample_values: "well_formed s \<Longrightarrow> length (sample_values s) = numSamples s"
  by (simp add: sample_values_def well_formed_def)

lemma getNextMagnitudes_advance:
  assumes wf: "well_formed s" and c0: "cursor s = 0" and k: "k < numSamples s"
    and lm: "length mags = numProbes s"
  shows "getNextMagnitudes mags (advance k s) =
           Inr (map (spec_magnitude (numChannels s) (sample_values s ! k)) [0..<numProbes s],
                sample_names s ! k, advance (Suc k) s)"
proof -
  from wf k obtain name v where r: "records s ! k = (name, v)"
    and m: "matches_format (numberFormat s) v"
    and l: "numProbes s * numChannels s \<le> length (numeric_values v)"
    and len: "k < length (records s)"
    by (rule well_formed_nth)
  have n: "sample_names s ! k = name"
    using r len k by (simp add: sample_names_def)
  show ?thesis
    using getNextMagnitudes_value [of "advance k s" name v mags] r m l len k c0 lm
    by (simp add: read_step_advance sample_values_nth [OF wf k r] n)
qed

lemma magnitudeByProbe_loop:
  assumes wf: "well_formed s" and c0: "cursor s = 0"
    and lmb: "length mb = numProbes s" and lm: "length mags = numProbes s"
  shows "k \<le> numSamples s \<Longrightarrow>
         \<exists>mags'. length mags' = numProbes s \<and>
           for_range k
             (\<lambda>i (magByProbe, magnitudes, s).
                 bindE (getNextMagnitudes magnitudes s)
                   (\<lambda>(magnitudes, sampleName, s).
                      Inr (fold (\<lambda>j magByProbe.
                                   magByProbe[j := fadd (magByProbe ! j) (magnitudes ! j)])
                             [0..<numProbes s] magByProbe,
                           magnitudes, s)))
             (mb, mags, s)
           = Inr (map (\<lambda>i. foldl fadd (mb ! i)
                              (map (\<lambda>v. spec_magnitude (numChannels s) v i) (take k (sample_values s))))
                    [0..<numProbes s],
                  mags', advance k s)"
proof (induction k)
  case 0
  have "map ((!) mb) [0..<numProbes s] = mb"
    using map_nth [of mb] lmb by simp
  then show ?case using lm by simp
next
  case (Suc k)
  let ?P = "numProbes s" and ?C = "numChannels s"
  let ?acc = "\<lambda>k. map (\<lambda>i. foldl fadd (mb ! i)
                 (map (\<lambda>v. spec_magnitude ?C v i) (take k (sample_values s)))) [0..<?P]"
  let ?m = "map (spec_magnitude ?C (sample_values s ! k)) [0..<?P]"
  from Suc obtain mags' where l': "length mags' = ?P"
    and ih: "for_range k
             (\<lambda>i (magByProbe, magnitudes, s).
                 bindE (getNextMagnitudes magnitudes s)
                   (\<lambda>(magnitudes, sampleName, s).
                      Inr (fold (\<lambda>j magByProbe.
                                   magByProbe[j := fadd (magByProbe ! j) (magnitudes ! j)])
                             [0..<numProbes s] magByProbe,
                           magnitudes, s)))
             (mb, mags, s) = Inr (?acc k, mags', advance k s)"
    by auto
  from Suc.prems have k: "k < numSamples s" by simp
  have tk: "take (Suc k) (sample_values s) = take k (sample_values s) @ [sample_values s ! k]"
    using k wf by (simp add: take_Suc_conv_app_nth length_sample_values)
  have upd: "fold (\<lambda>j magByProbe. magByProbe[j := fadd (magByProbe ! j) (?m ! j)]) [0..<?P] (?acc k)
             = ?acc (Suc k)"
    by (simp add: fold_update_all [where g = "\<lambda>j x. fadd x (?m ! j)"] tk)
  show ?case
    by (rule exI [of _ ?m])
       (simp add: for_range_Suc ih getNextMagnitudes_advance [OF wf c0 k l'] upd)
qed

lemma magnitudeByProbe_value:
  assumes wf: "well_formed s" and c0: "cursor s = 0"
  shows "magnitudeByProbe (replicate (numProbes s) (Fin 0)) s =
           Inr (map (spec_baseline (numChannels s) (sample_values s)) [0..<numProbes s],
                advance (numSamples s) s)"
proof -
  let ?P = "numProbes s" and ?C = "numChannels s" and ?N = "numSamples s"
  let ?acc = "map (\<lambda>i. foldl fadd (replicate ?P (Fin 0) ! i)
                 (map (\<lambda>v. spec_magnitude ?C v i) (take ?N (sample_values s)))) [0..<?P]"
  obtain mags' where
    loop: "for_range ?N
             (\<lambda>i (magByProbe, magnitudes, s).
                 bindE (getNextMagnitudes magnitudes s)
                   (\<lambda>(magnitudes, sampleName, s).
                      Inr (fold (\<lambda>j magByProbe.
                                   magByProbe[j := fadd (magByProbe ! j) (magnitudes ! j)])
                             [0..<numProbes s] magByProbe,
                           magnitudes, s)))
             (replicate ?P (Fin 0), replicate ?P (Fin 0), s)
           = Inr (?acc, mags', advance ?N s)"
    using magnitudeByProbe_loop [OF wf c0, of "replicate ?P (Fin 0)" "replicate ?P (Fin 0)" ?N]
    by auto
  have fin: "fold (\<lambda>i magByProbe. magByProbe[i := fdiv (magByProbe ! i) (float_of_uint ?N)])
               [0..<?P] ?acc
             = map (spec_baseline ?C (sample_values s)) [0..<?P]"
    using wf
    by (simp add: fold_update_all [where g = "\<lambda>i x. fdiv x (float_of_uint ?N)"]
          spec_baseline_def fmean_def fsum_def length_sample_values)
  show ?thesis
    unfolding magnitudeByProbe_def loop by (simp add: fin)
qed

lemma row_width_reset [simp]: "row_width (reset s) = row_width s"
  by (simp add: row_width_def reset_def)

lemma row_width_advance [simp]: "row_width (advance k s) = row_width s"
  by (simp add: row_width_def advance_def)

lemma strcpy_inside:
  "dest + length src < length mem \<Longrightarrow>
   strcpy mem dest src = take dest mem @ map Some src @ [None] @ drop (Suc (dest + length src)) mem"
  by (simp add: strcpy_def Let_def)

lemma length_strcpy_inside:
  "dest + length src < length mem \<Longrightarrow> length (strcpy mem dest src) = length mem"
  by (simp add: strcpy_inside)

lemma strcpy_row_written:
  "dest + length src < length mem \<Longrightarrow>
   take (Suc (length src)) (drop dest (strcpy mem dest src)) = map Some src @ [None]"
  by (simp add: strcpy_inside)

lemma strcpy_row_kept:
  assumes below: "start + n \<le> dest" and inside: "dest + length src < length mem"
  shows "take n (drop start (strcpy mem dest src)) = take n (drop start mem)"
proof -
  let ?tail = "map Some src @ [None] @ drop (Suc (dest + length src)) mem"
  have "take n (drop start (take dest mem @ ?tail)) = take n (drop start (take dest mem))"
    using below inside by simp
  also have "\<dots> = take n (take (dest - start) (drop start mem))"
    by (simp only: drop_take)
  also have "\<dots> = take n (drop start mem)"
    using below by (simp add: min_def)
  finally show ?thesis
    by (simp only: strcpy_inside [OF inside])
qed

lemma c_string_row:
  assumes "take (Suc (length name)) (drop start mem) = map Some name @ [None]"
  shows "c_string mem start = name"
proof -
  have "drop start mem = (map Some name @ [None]) @ drop (Suc (length name)) (drop start mem)"
    using append_take_drop_id [of "Suc (length name)" "drop start mem"] assms by simp
  then have "takeWhile (\<lambda>c. c \<noteq> None) (drop start mem) = map Some name"
    by (simp add: takeWhile_tail)
  then show ?thesis
    by (simp add: c_string_def comp_def)
qed

lemma stored_names_Suc:
  "stored_names s (Suc k) mem =
     strcpy (stored_names s k mem) (k * row_width s) (sample_names s ! k)"
  by (simp add: stored_names_def)

lemma update_after_prefix:
  "length xs = k \<Longrightarrow> k < length ys \<Longrightarrow> (xs @ drop k ys)[k := x] = (xs @ [x]) @ drop (Suc k) ys"
  by (simp add: list_update_append Cons_nth_drop_Suc [symmetric])

lemma magnitudeBySample_loop:
  assumes wf: "well_formed s" and c0: "cursor s = 0"
    and lms: "length ms = numSamples s" and lm: "length mags = numProbes s"
  shows "k \<le> numSamples s \<Longrightarrow>
         \<exists>mags'. length mags' = numProbes s \<and>
           for_range k
              (\<lambda>i (magBySample, sampleNames, magnitudes, s).
                 bindE (getNextMagnitudes magnitudes s)
                   (\<lambda>(magnitudes, sampleName, s).
                      let sampleNames = strcpy sampleNames (i * row_width s) sampleName;
                          mag = fold (\<lambda>j mag. fadd mag (fdiv (magnitudes ! j) (B ! j)))
                                  [0..<numProbes s] (Fin 0)
                      in Inr (magBySample[i := fdiv mag (float_of_uint (numProbes s))],
                              sampleNames, magnitudes, s)))
              (ms, ns, mags, s)
           = Inr (map (\<lambda>i. normalized (numProbes s) (numChannels s) B (sample_values s ! i)) [0..<k]
                    @ drop k ms,
                  stored_names s k ns, mags', advance k s)"
proof (induction k)
  case 0
  show ?case using lm by (simp add: stored_names_def)
next
  case (Suc k)
  let ?P = "numProbes s" and ?C = "numChannels s"
  let ?m = "map (spec_magnitude ?C (sample_values s ! k)) [0..<?P]"
  from Suc obtain mags' where l': "length mags' = ?P"
    and ih: "for_range k
              (\<lambda>i (magBySample, sampleNames, magnitudes, s).
                 bindE (getNextMagnitudes magnitudes s)
                   (\<lambda>(magnitudes, sampleName, s).
                      let sampleNames = strcpy sampleNames (i * row_width s) sampleName;
                          mag = fold (\<lambda>j mag. fadd mag (fdiv (magnitudes ! j) (B ! j)))
                                  [0..<numProbes s] (Fin 0)
                      in Inr (magBySample[i := fdiv mag (float_of_uint (numProbes s))],
                              sampleNames, magnitudes, s)))
              (ms, ns, mags, s)
           = Inr (map (\<lambda>i. normalized ?P ?C B (sample_values s ! i)) [0..<k] @ drop k ms,
                  stored_names s k ns, mags', advance k s)"
    by auto
  from Suc.prems have k: "k < numSamples s" by simp
  have mag: "fdiv (fold (\<lambda>j mag. fadd mag (fdiv (?m ! j) (B ! j))) [0..<?P] (Fin 0)) (float_of_uint ?P)
             = normalized ?P ?C B (sample_values s ! k)"
  proof -
    have eq: "map (\<lambda>j. fdiv (?m ! j) (B ! j)) [0..<?P]
          = map (\<lambda>j. fdiv (spec_magnitude ?C (sample_values s ! k) j) (B ! j)) [0..<?P]"
      by (rule map_cong [OF refl]) simp
    show ?thesis
      unfolding fold_accumulate eq by (simp add: normalized_def fmean_def fsum_def)
  qed
  have up: "(map (\<lambda>i. normalized ?P ?C B (sample_values s ! i)) [0..<k] @ drop k ms)
              [k := normalized ?P ?C B (sample_values s ! k)]
            = map (\<lambda>i. normalized ?P ?C B (sample_values s ! i)) [0..<Suc k] @ drop (Suc k) ms"
    using k lms by (simp add: update_after_prefix)
  show ?case
    apply (rule exI [of _ ?m])
    apply (simp only: for_range_Suc ih)
    apply (simp only: bindE_Inr prod.case getNextMagnitudes_advance [OF wf c0 k l']
        Let_def advance_fields mag up stored_names_Suc)
    apply simp
    done
qed

lemma reset_fields [simp]:
  "numProbes (reset s) = numProbes s"
  "numChannels (reset s) = numChannels s"
  "numSamples (reset s) = numSamples s"
  "numberFormat (reset s) = numberFormat s"
  "SAMPLE_NAME_SIZE (reset s) = SAMPLE_NAME_SIZE s"
  "records (reset s) = records s"
  "cursor (reset s) = 0"
  by (simp_all add: reset_def)

lemma well_formed_reset [simp]: "well_formed (reset s) = well_formed s"
  by (simp add: well_formed_def)

lemma well_formed_advance [simp]: "well_formed (advance k s) = well_formed s"
  by (simp add: well_formed_def)

lemma sample_values_reset [simp]: "sample_values (reset s) = sample_values s"
  by (simp add: sample_values_def)

lemma sample_values_advance [simp]: "sample_values (advance k s) = sample_values s"
  by (simp add: sample_values_def)

lemma sample_names_reset [simp]: "sample_names (reset s) = sample_names s"
  by (simp add: sample_names_def)

lemma sample_names_advance [simp]: "sample_names (advance k s) = sample_names s"
  by (simp add: sample_names_def)

lemma length_sample_names: "well_formed s \<Longrightarrow> length (sample_names s) = numSamples s"
  by (simp add: sample_names_def well_formed_def)

lemma map_nth_upt: "length xs = n \<Longrightarrow> map (\<lambda>i. f (xs ! i)) [0..<n] = map f xs"
  using map_nth [of xs] map_map [of f "(!) xs" "[0..<length xs]"] by (simp add: comp_def)

lemma stored_names_reset [simp]: "stored_names (reset s) = stored_names s"
  by (intro ext) (simp add: stored_names_def)

lemma stored_names_advance [simp]: "stored_names (advance k s) = stored_names s"
  by (intro ext) (simp add: stored_names_def)

lemma output_lines_reset [simp]: "output_lines (reset s) = output_lines s"
  by (intro ext) (simp add: output_lines_def)

lemma output_lines_advance [simp]: "output_lines (advance k s) = output_lines s"
  by (intro ext) (simp add: output_lines_def)

lemma sample_name_fits:
  assumes "well_formed s" and "i < numSamples s"
  shows "length (sample_names s ! i) < row_width s"
proof -
  from assms obtain name v where "records s ! i = (name, v)"
    and "length name \<le> SAMPLE_NAME_SIZE s" and "i < length (records s)"
    by (rule well_formed_nth)
  then show ?thesis
    using assms(2) by (simp add: sample_names_def row_width_def)
qed

lemma stored_names_rows:
  assumes wf: "well_formed s"
    and l: "length mem = numSamples s * row_width s"
  shows "k \<le> numSamples s \<Longrightarrow>
         length (stored_names s k mem) = length mem \<and>
         (\<forall>i<k. take (Suc (length (sample_names s ! i)))
                   (drop (i * row_width s) (stored_names s k mem))
                 = map Some (sample_names s ! i) @ [None])"
proof (induction k)
  case 0
  show ?case by (simp add: stored_names_def)
next
  case (Suc k)
  let ?W = "row_width s"
  let ?m = "stored_names s k mem"
  from Suc have k: "k < numSamples s" and lm: "length ?m = length mem"
    and rows: "\<And>i. i < k \<Longrightarrow> take (Suc (length (sample_names s ! i))) (drop (i * ?W) ?m)
                                 = map Some (sample_names s ! i) @ [None]"
    by simp_all
  have fit: "length (sample_names s ! i) < ?W" if "i < numSamples s" for i
    by (rule sample_name_fits [OF wf that])
  have "Suc k * ?W \<le> numSamples s * ?W"
    using k by (intro mult_le_mono1) simp
  then have inside: "k * ?W + length (sample_names s ! k) < length ?m"
    using fit [OF k] lm l by simp
  have len: "length (stored_names s (Suc k) mem) = length mem"
    using inside lm by (simp only: stored_names_Suc length_strcpy_inside)
  have row: "take (Suc (length (sample_names s ! i))) (drop (i * ?W) (stored_names s (Suc k) mem))
             = map Some (sample_names s ! i) @ [None]" if i: "i < Suc k" for i
  proof (cases "i = k")
    case True
    then show ?thesis
      using inside by (simp only: stored_names_Suc strcpy_row_written)
  next
    case False
    with i have ik: "i < k" by simp
    then have "Suc i * ?W \<le> k * ?W"
      by (intro mult_le_mono1) simp
    then have "i * ?W + Suc (length (sample_names s ! i)) \<le> k * ?W"
      using fit [of i] ik k by simp
    then show ?thesis
      using inside rows [OF ik] by (simp only: stored_names_Suc strcpy_row_kept)
  qed
  from len row show ?case by blast
qed

lemma c_string_stored_names:
  assumes "well_formed s" and "length mem = numSamples s * row_width s"
    and "i < numSamples s"
  shows "c_string (stored_names s (numSamples s) mem) (i * row_width s)
         = sample_names s ! i"
  using stored_names_rows [OF assms(1,2) le_refl] assms(3) by (intro c_string_row) blast

lemma output_lines_stored_names:
  assumes wf: "well_formed s" and l: "length mem = numSamples s * row_width s"
    and ly: "length ys = numSamples s"
  shows "output_lines s (stored_names s (numSamples s) mem) ys = zip (sample_names s) ys"
  using ly length_sample_names [OF wf]
  by (intro nth_equalityI) (simp_all add: output_lines_def c_string_stored_names [OF wf l])

lemma normalized_baseline:
  "normalized P C (map (spec_baseline C vs) [0..<P]) v = spec_sample_magnitude P C vs v"
proof -
  have "map (\<lambda>i. fdiv (spec_magnitude C v i) (map (spec_baseline C vs) [0..<P] ! i)) [0..<P]
        = map (\<lambda>i. fdiv (spec_magnitude C v i) (spec_baseline C vs i)) [0..<P]"
    by (rule map_cong [OF refl]) simp
  then show ?thesis
    by (simp only: normalized_def spec_sample_magnitude_def)
qed

lemma magnitudeBySample_value:
  assumes wf: "well_formed s" and c0: "cursor s = 0"
    and lms: "length ms = numSamples s"
  shows "magnitudeBySample ms B ns s =
           Inr (map (normalized (numProbes s) (numChannels s) B) (sample_values s),
                stored_names s (numSamples s) ns, advance (numSamples s) s)"
proof -
  let ?N = "numSamples s"
  obtain mags' where
    loop: "for_range ?N
              (\<lambda>i (magBySample, sampleNames, magnitudes, s).
                 bindE (getNextMagnitudes magnitudes s)
                   (\<lambda>(magnitudes, sampleName, s).
                      let sampleNames = strcpy sampleNames (i * row_width s) sampleName;
                          mag = fold (\<lambda>j mag. fadd mag (fdiv (magnitudes ! j) (B ! j)))
                                  [0..<numProbes s] (Fin 0)
                      in Inr (magBySample[i := fdiv mag (float_of_uint (numProbes s))],
                              sampleNames, magnitudes, s)))
              (ms, ns, replicate (numProbes s) (Fin 0), s)
           = Inr (map (\<lambda>i. normalized (numProbes s) (numChannels s) B (sample_values s ! i)) [0..<?N]
                    @ drop ?N ms,
                  stored_names s ?N ns, mags', advance ?N s)"
    using magnitudeBySample_loop [OF wf c0 lms, of "replicate (numProbes s) (Fin 0)" ?N B ns]
    by auto
  have a: "map (\<lambda>i. normalized (numProbes s) (numChannels s) B (sample_values s ! i)) [0..<?N]
           = map (normalized (numProbes s) (numChannels s) B) (sample_values s)"
    by (rule map_nth_upt) (rule length_sample_values [OF wf])
  show ?thesis
    unfolding magnitudeBySample_def loop using lms by (simp add: a)
qed

lemma writeMagnitude_value:
  assumes wf: "well_formed s"
  shows "writeMagnitude s =
           Inr (spec_magnitude_output s,
                advance (numSamples s) (reset (advance (numSamples s) (reset s))))"
proof -
  have p1: "magnitudeByProbe (replicate (numProbes (reset s)) (Fin 0)) (reset s) =
              Inr (map (spec_baseline (numChannels s) (sample_values s)) [0..<numProbes s],
                   advance (numSamples s) (reset s))"
    using magnitudeByProbe_value [of "reset s"] wf by simp
  let ?s2 = "reset (advance (numSamples s) (reset s))"
  have p2: "magnitudeBySample (replicate (numSamples s) (Fin 0))
              (map (spec_baseline (numChannels s) (sample_values s)) [0..<numProbes s])
              (replicate (numSamples s * row_width s) None) ?s2
            = Inr (map (spec_sample_magnitude (numProbes s) (numChannels s) (sample_values s))
                     (sample_values s),
                   stored_names s (numSamples s)
                     (replicate (numSamples s * row_width s) None),
                   advance (numSamples s) ?s2)"
    using magnitudeBySample_value [of ?s2 "replicate (numSamples s) (Fin 0)"
        "map (spec_baseline (numChannels s) (sample_values s)) [0..<numProbes s]"
        "replicate (numSamples s * row_width s) None"] wf
    by (simp add: normalized_baseline)
  show ?thesis
    unfolding writeMagnitude_def Let_def p1 bindE_Inr prod.case
    using wf
    by (simp add: p1 p2 spec_magnitude_output_def output_lines_stored_names
        length_sample_values)
qed

lemma fsub_uint16:
  "float_of_int (uint a - uint b) = fsub (float_of_uint16 a) (float_of_uint16 (b::16 word))"
  by (simp add: float_of_int_def float_of_uint16_def fsub_def)

lemma xyd_values:
  assumes m: "matches_format fmt v" and k: "k + 1 < length (numeric_values v)"
  shows "(if fmt = 0
          then bindE (vector_at (case v of FloatValues fs \<Rightarrow> fs | IntValues ws \<Rightarrow> []) (k + 1))
                 (\<lambda>a. bindE (vector_at (case v of FloatValues fs \<Rightarrow> fs | IntValues ws \<Rightarrow> []) k)
                    (\<lambda>b. Inr (fsub a b)))
          else bindE (vector_at (case v of FloatValues fs \<Rightarrow> [] | IntValues ws \<Rightarrow> ws) (k + 1))
                 (\<lambda>a. bindE (vector_at (case v of FloatValues fs \<Rightarrow> [] | IntValues ws \<Rightarrow> ws) k)
                    (\<lambda>b. Inr (float_of_int (uint a - uint b)))))
         = Inr (fsub (numeric_values v ! (k + 1)) (numeric_values v ! k))"
  using m k
  by (cases v) (simp_all add: vector_at_def numeric_values_def matches_format_def fsub_uint16)

lemma xydiff_record:
  assumes c: "cursor s < numSamples s" "cursor s < length (records s)"
    and r: "records s ! cursor s = (name, v)"
    and m: "matches_format (numberFormat s) v"
  shows "(if numberFormat s = 0
            then bindE (getNextRecord_float s) (\<lambda>(name, fs, s'). Inr (name, fs, [], s'))
            else bindE (getNextRecord_int s) (\<lambda>(name, ws, s'). Inr (name, [], ws, s')))
          = Inr (name, case v of FloatValues fs \<Rightarrow> fs | IntValues ws \<Rightarrow> [],
                 case v of FloatValues fs \<Rightarrow> [] | IntValues ws \<Rightarrow> ws, read_step s)"
  using c r m
  by (cases v)
     (simp_all add: getNextRecord_float_def getNextRecord_int_def next_record_def
        matches_format_def read_step_def)

lemma xydiffBySample_loop:
  assumes wf: "well_formed s" and c0: "cursor s = 0" and C: "2 \<le> numChannels s"
    and lms: "length ms = numSamples s"
  shows "k \<le> numSamples s \<Longrightarrow>
         for_range k
       (\<lambda>i (xydBySample, sampleNames, s).
          bindE (if numberFormat s = 0
                 then bindE (getNextRecord_float s) (\<lambda>(name, fs, s'). Inr (name, fs, [], s'))
                 else bindE (getNextRecord_int s) (\<lambda>(name, ws, s'). Inr (name, [], ws, s')))
            (\<lambda>(sampleName, intensity_float, intensity_int, s).
               let sampleNames = strcpy sampleNames (i * row_width s) sampleName
               in bindE (for_range (numProbes s)
                           (\<lambda>j xydTotal.
                              let index = j * numChannels s
                              in bindE (if numberFormat s = 0
                                        then bindE (vector_at intensity_float (index + 1))
                                               (\<lambda>a. bindE (vector_at intensity_float index)
                                                  (\<lambda>b. Inr (fsub a b)))
                                        else bindE (vector_at intensity_int (index + 1))
                                               (\<lambda>a. bindE (vector_at intensity_int index)
                                                  (\<lambda>b. Inr (float_of_int (uint a - uint b)))))
                                   (\<lambda>xyd. Inr (fadd xydTotal xyd)))
                           (Fin 0))
                    (\<lambda>xydTotal.
                       Inr (xydBySample[i := fdiv xydTotal (float_of_uint (numProbes s))],
                            sampleNames, s))))
       (ms, ns, s)
       = Inr (map (\<lambda>i. spec_xydiff (numProbes s) (numChannels s) (sample_values s ! i)) [0..<k]
                @ drop k ms,
              stored_names s k ns, advance k s)"
proof (induction k)
  case 0
  show ?case by (simp add: stored_names_def)
next
  case (Suc k)
  let ?P = "numProbes s" and ?C = "numChannels s"
  from Suc.prems have k: "k < numSamples s" by simp
  from wf k obtain name v where r: "records s ! k = (name, v)"
    and m: "matches_format (numberFormat s) v"
    and l: "?P * ?C \<le> length (numeric_values v)"
    and len: "k < length (records s)"
    by (rule well_formed_nth)
  let ?fl = "case v of FloatValues fs \<Rightarrow> fs | IntValues ws \<Rightarrow> []"
  let ?in = "case v of FloatValues fs \<Rightarrow> [] | IntValues ws \<Rightarrow> ws"
  let ?vs = "numeric_values v"
  have n: "sample_names s ! k = name"
    using r len k by (simp add: sample_names_def)
  have sv: "sample_values s ! k = ?vs"
    by (rule sample_values_nth [OF wf k r])
  have rd: "(if numberFormat (advance k s) = 0
            then bindE (getNextRecord_float (advance k s)) (\<lambda>(name, fs, s'). Inr (name, fs, [], s'))
            else bindE (getNextRecord_int (advance k s)) (\<lambda>(name, ws, s'). Inr (name, [], ws, s')))
          = Inr (name, ?fl, ?in, advance (Suc k) s)"
    using xydiff_record [of "advance k s" name v] r m len k c0
    by (simp add: read_step_advance)
  have inner: "for_range ?P
                 (\<lambda>j xydTotal.
                    bindE (if numberFormat s = 0
                           then bindE (vector_at ?fl (j * ?C + 1))
                                  (\<lambda>a. bindE (vector_at ?fl (j * ?C)) (\<lambda>b. Inr (fsub a b)))
                           else bindE (vector_at ?in (j * ?C + 1))
                                  (\<lambda>a. bindE (vector_at ?in (j * ?C))
                                     (\<lambda>b. Inr (float_of_int (uint a - uint b)))))
                      (\<lambda>xyd. Inr (fadd xydTotal xyd)))
                 (Fin 0)
               = Inr (fsum (map (\<lambda>j. fsub (?vs ! (j * ?C + 1)) (?vs ! (j * ?C))) [0..<?P]))"
  proof -
    have "for_range ?P
                 (\<lambda>j xydTotal.
                    bindE (if numberFormat s = 0
                           then bindE (vector_at ?fl (j * ?C + 1))
                                  (\<lambda>a. bindE (vector_at ?fl (j * ?C)) (\<lambda>b. Inr (fsub a b)))
                           else bindE (vector_at ?in (j * ?C + 1))
                                  (\<lambda>a. bindE (vector_at ?in (j * ?C))
                                     (\<lambda>b. Inr (float_of_int (uint a - uint b)))))
                      (\<lambda>xyd. Inr (fadd xydTotal xyd)))
                 (Fin 0)
          = Inr (fold (\<lambda>j t. fadd t (fsub (?vs ! (j * ?C + 1)) (?vs ! (j * ?C)))) [0..<?P] (Fin 0))"
    proof (rule for_range_pure)
      fix j t assume j: "j < ?P"
      have "j * ?C + 1 < ?P * ?C"
        using index_in_range [of j ?P 1 ?C] j C by simp
      with l have "j * ?C + 1 < length ?vs" by simp
      then show "bindE (if numberFormat s = 0
                           then bindE (vector_at ?fl (j * ?C + 1))
                                  (\<lambda>a. bindE (vector_at ?fl (j * ?C)) (\<lambda>b. Inr (fsub a b)))
                           else bindE (vector_at ?in (j * ?C + 1))
                                  (\<lambda>a. bindE (vector_at ?in (j * ?C))
                                     (\<lambda>b. Inr (float_of_int (uint a - uint b)))))
                      (\<lambda>xyd. Inr (fadd t xyd))
                 = Inr (fadd t (fsub (?vs ! (j * ?C + 1)) (?vs ! (j * ?C))))"
        by (simp only: xyd_values [OF m] bindE_Inr)
    qed
    then show ?thesis by (simp only: fold_accumulate fsum_def)
  qed
  have up: "(map (\<lambda>i. spec_xydiff ?P ?C (sample_values s ! i)) [0..<k] @ drop k ms)
              [k := spec_xydiff ?P ?C (sample_values s ! k)]
            = map (\<lambda>i. spec_xydiff ?P ?C (sample_values s ! i)) [0..<Suc k] @ drop (Suc k) ms"
    using k lms by (simp add: update_after_prefix)
  have val: "fdiv (fsum (map (\<lambda>j. fsub (?vs ! (j * ?C + 1)) (?vs ! (j * ?C))) [0..<?P]))
               (float_of_uint ?P) = spec_xydiff ?P ?C (sample_values s ! k)"
    by (simp add: spec_xydiff_def fmean_def sv)
  show ?case
    apply (simp only: for_range_Suc Suc.IH [OF less_imp_le [OF k]])
    apply (simp only: bindE_Inr prod.case rd)
    apply (simp only: bindE_Inr prod.case Let_def advance_fields row_width_advance inner val up
        stored_names_Suc n)
    done
qed

section \<open>The scenario of the specification\<close>

lemma sqrt_25: "sqrt 25 = 5"
  by (rule real_sqrt_unique) simp_all

lemma sqrt_100: "sqrt 100 = 10"
  by (rule real_sqrt_unique) simp_all

lemma outcome_Inr [simp]: "outcome (Inr (x, s)) = Inr x"
  by (simp add: outcome_def)

lemma outcome_Inl [simp]: "outcome (Inl e) = Inl e"
  by (simp add: outcome_def)

lemma well_formed_scenario: "well_formed scenario"
  by (simp add: well_formed_def scenario_def matches_format_def numeric_values_def)

lemma sample_values_scenario:
  "sample_values scenario = [[Fin 3, Fin 4, Fin 0, Fin 0], [Fin 0, Fin 0, Fin 6, Fin 8]]"
  by (simp add: sample_values_def scenario_def numeric_values_def float_of_uint16_def)

lemma fields_scenario:
  "numProbes scenario = 2" "numChannels scenario = 2" "numSamples scenario = 2"
  "sample_names scenario = [''S1'', ''S2'']"
  by (simp_all add: scenario_def sample_names_def)

section \<open>The magnitude metric\<close>

text \<open>
  Claim C1. For a dataset of \<open>N \<ge> 1\<close> samples and \<open>P \<ge> 1\<close> probes, pass 1
  (\<open>magnitudeByProbe\<close>, on the zeroed array and the rewound source) yields for each probe
  \<open>i\<close> the baseline \<open>B[i]\<close>, the arithmetic mean over the samples of the magnitude
  \<open>sqrt (\<Sum>j. value(i,j)\<^sup>2)\<close>, and \<open>writeMagnitude\<close> yields, for each sample in read order,
  its name and the mean over the probes of its magnitude divided by \<open>B[i]\<close>. The witness is
  the scenario of the specification: the baselines are 2.5 and 5, and both samples get 1.
\<close>

theorem magnitude_two_pass:
  assumes "well_formed s" and "1 \<le> numSamples s" and "1 \<le> numProbes s"
  shows "outcome (magnitudeByProbe (replicate (numProbes s) (Fin 0)) (reset s)) =
           Inr (map (spec_baseline (numChannels s) (sample_values s)) [0..<numProbes s]) \<and>
         outcome (writeMagnitude s) =
           Inr (zip (sample_names s)
                  (map (spec_sample_magnitude (numProbes s) (numChannels s) (sample_values s))
                     (sample_values s)))"
proof -
  have "magnitudeByProbe (replicate (numProbes (reset s)) (Fin 0)) (reset s) =
          Inr (map (spec_baseline (numChannels s) (sample_values s)) [0..<numProbes s],
               advance (numSamples s) (reset s))"
    using magnitudeByProbe_value [of "reset s"] assms(1) by simp
  then show ?thesis
    using writeMagnitude_value [OF assms(1)] by (simp add: spec_magnitude_output_def)
qed

theorem magnitude_two_pass_witness:
  "well_formed scenario \<and> 1 \<le> numSamples scenario \<and> 1 \<le> numProbes scenario \<and>
   outcome (magnitudeByProbe [Fin 0, Fin 0] (reset scenario)) = Inr [Fin (5 / 2), Fin 5] \<and>
   outcome (writeMagnitude scenario) = Inr [(''S1'', Fin 1), (''S2'', Fin 1)]"
proof -
  have n: "1 \<le> numSamples scenario" and p: "1 \<le> numProbes scenario"
    by (simp_all add: scenario_def)
  have b: "map (spec_baseline 2 (sample_values scenario)) [0..<2] = [Fin (5 / 2), Fin 5]"
    by (simp add: sample_values_scenario spec_baseline_def spec_magnitude_def fmean_def fsum_def
        float_of_uint_def upt_conv_Cons sqrt_25 sqrt_100)
  have m: "map (spec_sample_magnitude 2 2 (sample_values scenario)) (sample_values scenario)
           = [Fin 1, Fin 1]"
    by (simp add: sample_values_scenario spec_sample_magnitude_def spec_baseline_def
        spec_magnitude_def fmean_def fsum_def float_of_uint_def upt_conv_Cons sqrt_25 sqrt_100)
  have r: "replicate 2 (Fin 0) = [Fin 0, Fin 0]"
    by (simp add: numeral_2_eq_2)
  have "outcome (magnitudeByProbe [Fin 0, Fin 0] (reset scenario)) = Inr [Fin (5 / 2), Fin 5] \<and>
        outcome (writeMagnitude scenario) = Inr (zip [''S1'', ''S2''] [Fin 1, Fin 1])"
    using magnitude_two_pass [OF well_formed_scenario n p] by (simp only: fields_scenario b m r)
  then show ?thesis
    using well_formed_scenario n p by simp
qed

section \<open>The xydiff metric\<close>

lemma xydiffBySample_value:
  assumes wf: "well_formed s" and c0: "cursor s = 0" and C: "2 \<le> numChannels s"
    and lms: "length ms = numSamples s"
  shows "xydiffBySample ms ns s =
           Inr (map (spec_xydiff (numProbes s) (numChannels s)) (sample_values s),
                stored_names s (numSamples s) ns, advance (numSamples s) s)"
proof -
  let ?N = "numSamples s"
  have a: "map (\<lambda>i. spec_xydiff (numProbes s) (numChannels s) (sample_values s ! i)) [0..<?N]
           = map (spec_xydiff (numProbes s) (numChannels s)) (sample_values s)"
    by (rule map_nth_upt) (rule length_sample_values [OF wf])
  show ?thesis
    unfolding xydiffBySample_def xydiffBySample_loop [OF wf c0 C lms le_refl]
    using lms by (simp add: a)
qed

lemma writeXydiff_value:
  assumes wf: "well_formed s" and C: "numChannels s = 2"
  shows "writeXydiff s =
           Inr (zip (sample_names s) (map (spec_xydiff (numProbes s) 2) (sample_values s)),
                advance (numSamples s) (reset s))"
proof -
  let ?table = "replicate (numSamples s * row_width s) None :: cell list"
  have "xydiffBySample (replicate (numSamples s) (Fin 0)) ?table (reset s)
        = Inr (map (spec_xydiff (numProbes s) 2) (sample_values s),
               stored_names s (numSamples s) ?table, advance (numSamples s) (reset s))"
    using xydiffBySample_value [of "reset s" "replicate (numSamples s) (Fin 0)" ?table] wf C
    by simp
  then show ?thesis
    using wf C
    by (simp add: writeXydiff_def output_lines_stored_names length_sample_values)
qed

lemma zip_names_values:
  "zip (sample_names s) (map f (sample_values s))
   = map (\<lambda>(name, v). (name, f (numeric_values v))) (take (numSamples s) (records s))"
proof -
  have "zip (map fst xs) (map f (map (\<lambda>(name, v). numeric_values v) xs))
        = map (\<lambda>(name, v). (name, f (numeric_values v))) xs" for xs :: "(string \<times> intensities) list"
    by (induction xs) auto
  then show ?thesis
    by (simp only: sample_names_def sample_values_def)
qed


text \<open>
  Claim C2. For a dataset with exactly two channels and \<open>P \<ge> 1\<close> probes, \<open>writeXydiff\<close>
  yields one entry for each record in the order in which the records are read: the name of
  the record, and the mean over the probes of the value of channel 1 minus the value of
  channel 0, taken on the intensities themselves. The witness is the scenario of the
  specification: 0.5 for S1 and 1 for S2.
\<close>

theorem xydiff_mean_difference:
  assumes "well_formed s" and "numChannels s = 2" and "1 \<le> numProbes s"
  shows "outcome (writeXydiff s) =
           Inr (map (\<lambda>(name, v). (name, spec_xydiff (numProbes s) 2 (numeric_values v)))
                  (take (numSamples s) (records s)))"
  using writeXydiff_value [OF assms(1,2)] by (simp add: zip_names_values)

theorem xydiff_mean_difference_witness:
  "well_formed scenario \<and> numChannels scenario = 2 \<and> 1 \<le> numProbes scenario \<and>
   outcome (writeXydiff scenario) = Inr [(''S1'', Fin (1 / 2)), (''S2'', Fin 1)]"
proof -
  have c: "numChannels scenario = 2" and p: "1 \<le> numProbes scenario"
    by (simp_all add: scenario_def)
  have v: "map (\<lambda>(name, v). (name, spec_xydiff (numProbes scenario) 2 (numeric_values v)))
             (take (numSamples scenario) (records scenario))
           = [(''S1'', Fin (1 / 2)), (''S2'', Fin 1)]"
    by (simp add: scenario_def numeric_values_def float_of_uint16_def spec_xydiff_def fmean_def
        fsum_def fsub_def float_of_uint_def upt_conv_Cons)
  show ?thesis
    using xydiff_mean_difference [OF well_formed_scenario c p] well_formed_scenario c p
    by (simp only: v simp_thms)
qed

lemma foldl_fadd_Fin:
  "foldl fadd (Fin a) (map (\<lambda>i. Fin (g i)) xs) = Fin (a + sum_list (map g xs))"
  by (induction xs arbitrary: a) (simp_all add: add.assoc)

lemma fsum_Fin: "fsum (map (\<lambda>i. Fin (g i)) xs) = Fin (sum_list (map g xs))"
  by (simp add: fsum_def foldl_fadd_Fin)

lemma spec_xydiff_fixed_point:
  assumes P: "1 \<le> P" and l: "P * 2 \<le> length ws"
  shows "spec_xydiff P 2 (map float_of_uint16 ws) =
           Fin (real_of_int (\<Sum>i<P. uint (ws ! (i * 2 + 1)) - uint (ws ! (i * 2))) / real P)"
proof -
  have a: "map (\<lambda>i. fsub (map float_of_uint16 ws ! (i * 2 + 1)) (map float_of_uint16 ws ! (i * 2))) [0..<P]
        = map (\<lambda>i. Fin (real_of_int (uint (ws ! (i * 2 + 1)) - uint (ws ! (i * 2))))) [0..<P]"
  proof (rule map_cong [OF refl])
    fix i assume "i \<in> set [0..<P]"
    then have "i * 2 + 1 < length ws" "i * 2 < length ws" using l by simp_all
    then show "fsub (map float_of_uint16 ws ! (i * 2 + 1)) (map float_of_uint16 ws ! (i * 2))
               = Fin (real_of_int (uint (ws ! (i * 2 + 1)) - uint (ws ! (i * 2))))"
      by (simp add: fsub_uint16 [symmetric] float_of_int_def)
  qed
  have b: "sum_list (map (\<lambda>i. real_of_int (uint (ws ! (i * 2 + 1)) - uint (ws ! (i * 2)))) [0..<P])
                 = real_of_int (\<Sum>i<P. uint (ws ! (i * 2 + 1)) - uint (ws ! (i * 2)))"
    by (simp add: interv_sum_list_conv_sum_set_nat atLeast0LessThan)
  have "spec_xydiff P 2 (map float_of_uint16 ws) =
          fdiv (Fin (real_of_int (\<Sum>i<P. uint (ws ! (i * 2 + 1)) - uint (ws ! (i * 2)))))
            (Fin (real P))"
    by (simp only: spec_xydiff_def fmean_def a fsum_Fin b float_of_uint_def length_map length_upt
        diff_zero)
  then show ?thesis
    using P by simp
qed

text \<open>
  Claim C10. In the fixed-point encoding the contribution of a probe is the difference of
  the two \<open>uint16_t\<close> values as integers, negative when channel 0 is the larger, and for a
  two-channel fixed-point dataset the xydiff of a sample is the mean of these signed
  differences. Nothing wraps modulo \<open>2^16\<close>. The witness has a probe with channel 0 = 4 and
  channel 1 = 3.
\<close>

theorem xydiff_fixed_point_signed:
  assumes "well_formed s" and "numChannels s = 2" and "numberFormat s \<noteq> 0"
    and "1 \<le> numProbes s"
  shows "outcome (writeXydiff s) =
           Inr (map (\<lambda>(name, v).
                       (name, Fin (real_of_int (\<Sum>i<numProbes s. uint (int_values v ! (i * 2 + 1))
                                                             - uint (int_values v ! (i * 2)))
                                   / real (numProbes s))))
                  (take (numSamples s) (records s)))"
proof -
  have "map (\<lambda>(name, v). (name, spec_xydiff (numProbes s) 2 (numeric_values v)))
          (take (numSamples s) (records s))
        = map (\<lambda>(name, v).
                       (name, Fin (real_of_int (\<Sum>i<numProbes s. uint (int_values v ! (i * 2 + 1))
                                                             - uint (int_values v ! (i * 2)))
                                   / real (numProbes s))))
                  (take (numSamples s) (records s))"
  proof (rule map_cong [OF refl])
    fix x assume x: "x \<in> set (take (numSamples s) (records s))"
    obtain name v where nv: "x = (name, v)" by (cases x)
    from x nv assms(1,2) have m: "matches_format (numberFormat s) v"
      and l: "numProbes s * 2 \<le> length (numeric_values v)"
      by (auto simp: well_formed_def list_all_iff)
    from m assms(3) obtain ws where ws: "v = IntValues ws"
      by (cases v) (simp_all add: matches_format_def)
    show "(case x of (name, v) \<Rightarrow> (name, spec_xydiff (numProbes s) 2 (numeric_values v)))
          = (case x of (name, v) \<Rightarrow>
               (name, Fin (real_of_int (\<Sum>i<numProbes s. uint (int_values v ! (i * 2 + 1))
                                                     - uint (int_values v ! (i * 2)))
                           / real (numProbes s))))"
      using spec_xydiff_fixed_point [OF assms(4), of ws] l
      by (simp add: nv ws numeric_values_def int_values_def)
  qed
  then show ?thesis
    using writeXydiff_value [OF assms(1,2)] by (simp add: zip_names_values)
qed

theorem xydiff_fixed_point_signed_witness:
  "well_formed inverted \<and> numChannels inverted = 2 \<and> numberFormat inverted \<noteq> 0 \<and>
   1 \<le> numProbes inverted \<and>
   outcome (writeXydiff inverted) = Inr [(''S1'', Fin (- 1 / 2))]"
proof -
  have w: "well_formed inverted"
    by (simp add: well_formed_def inverted_def matches_format_def numeric_values_def)
  have c: "numChannels inverted = 2" and f: "numberFormat inverted \<noteq> 0"
    and p: "1 \<le> numProbes inverted"
    by (simp_all add: inverted_def)
  have v: "map (\<lambda>(name, v).
                  (name, Fin (real_of_int (\<Sum>i<numProbes inverted. uint (int_values v ! (i * 2 + 1))
                                                             - uint (int_values v ! (i * 2)))
                              / real (numProbes inverted))))
             (take (numSamples inverted) (records inverted))
           = [(''S1'', Fin (- 1 / 2))]"
    by (simp add: inverted_def int_values_def lessThan_nat_numeral lessThan_Suc)
  show ?thesis
    using xydiff_fixed_point_signed [OF w c f p] w c f p
    by (simp only: v simp_thms)
qed

section \<open>Degenerate datasets\<close>

text \<open>The definitions that a run on a concrete handle unfolds.\<close>

lemmas run_simps =
  writeMagnitude_def magnitudeByProbe_def magnitudeBySample_def getNextMagnitudes_def
  writeXydiff_def xydiffBySample_def getNextRecord_int_def getNextRecord_float_def
  next_record_def reset_def for_range_def vector_at_def strcpy_def c_string_def row_width_def
  signal_at_def
  output_lines_def float_of_uint16_def float_of_uint_def float_of_int_def fsub_def
  upt_conv_Cons Let_def

text \<open>
  Claim C3 says that a dataset with no probe or no sample makes the magnitude computation
  fail with a reported error and no output. QC.cpp has no such check. With no sample both
  loops over the samples are empty and the output has no line; with no probe the metric of
  every sample is \<open>0.0 / 0\<close>, which is NaN, and the line is printed.
\<close>

theorem degenerate_magnitude_counterexample:
  "outcome (writeMagnitude no_samples) = Inr [] \<and>
   outcome (writeMagnitude no_probes) = Inr [(''S1'', NaN)]"
  by (simp add: no_samples_def no_probes_def run_simps)

text \<open>
  Claim C3, as the code has it: with zero samples the magnitude computation reports no
  error and yields an empty output; on a dataset with zero probes it reports no error and
  yields, for every sample, its name and NaN.
\<close>

theorem degenerate_magnitude:
  "(numSamples s = 0 \<longrightarrow> outcome (writeMagnitude s) = Inr []) \<and>
   (well_formed s \<and> numProbes s = 0 \<longrightarrow>
      outcome (writeMagnitude s) = Inr (map (\<lambda>(name, v). (name, NaN)) (take (numSamples s) (records s))))"
proof (intro conjI impI)
  assume n: "numSamples s = 0"
  then have "well_formed s" by (simp add: well_formed_def)
  from writeMagnitude_value [OF this] n show "outcome (writeMagnitude s) = Inr []"
    by (simp add: spec_magnitude_output_def sample_names_def)
next
  assume a: "well_formed s \<and> numProbes s = 0"
  have "spec_sample_magnitude 0 C vs v = NaN" for C vs v
    by (simp add: spec_sample_magnitude_def fmean_def fsum_def float_of_uint_def)
  with a writeMagnitude_value [of s]
  show "outcome (writeMagnitude s) = Inr (map (\<lambda>(name, v). (name, NaN)) (take (numSamples s) (records s)))"
    by (simp add: spec_magnitude_output_def zip_names_values)
qed

theorem degenerate_magnitude_witness:
  "numSamples no_samples = 0 \<and> outcome (writeMagnitude no_samples) = Inr [] \<and>
   well_formed no_probes \<and> numProbes no_probes = 0 \<and>
   outcome (writeMagnitude no_probes) = Inr [(''S1'', NaN)]"
proof -
  have n: "numSamples no_samples = 0" by (simp add: no_samples_def)
  have w: "well_formed no_probes" and p: "numProbes no_probes = 0"
    by (simp_all add: well_formed_def no_probes_def matches_format_def numeric_values_def)
  have t: "map (\<lambda>(name, v). (name, NaN)) (take (numSamples no_probes) (records no_probes))
           = [(''S1'', NaN)]"
    by (simp add: no_probes_def)
  show ?thesis
    using degenerate_magnitude [of no_samples] degenerate_magnitude [of no_probes] n w p
    by (simp only: t simp_thms)
qed

section \<open>The channel check of xydiff\<close>

lemma foldE_error: "foldE f xs s = Inl e \<Longrightarrow> \<exists>x t. f x t = Inl e"
  by (induction xs arbitrary: s) (auto split: sum.splits)

lemma for_range_error: "for_range n f s = Inl e \<Longrightarrow> \<exists>i t. f i t = Inl e"
  unfolding for_range_def by (rule foldE_error)

lemma bindE_Inl_iff: "bindE m f = Inl e \<longleftrightarrow> m = Inl e \<or> (\<exists>x. m = Inr x \<and> f x = Inl e)"
  by (cases m) simp_all

lemma vector_at_error: "vector_at xs k = Inl e \<Longrightarrow> e = OutOfRange"
  by (simp add: vector_at_def split: if_splits)

lemma getNextRecord_float_error:
  "getNextRecord_float s = Inl e \<Longrightarrow> e = EndOfData \<or> e = FormatMismatch"
  by (auto simp: getNextRecord_float_def next_record_def
      split: if_splits sum.splits prod.splits intensities.splits)

lemma getNextRecord_int_error:
  "getNextRecord_int s = Inl e \<Longrightarrow> e = EndOfData \<or> e = FormatMismatch"
  by (auto simp: getNextRecord_int_def next_record_def
      split: if_splits sum.splits prod.splits intensities.splits)

lemma xydiffBySample_error:
  assumes "xydiffBySample ms ns s = Inl e"
  shows "e \<noteq> ChannelCount"
proof -
  from assms obtain i t where
    b: "(\<lambda>i (xydBySample, sampleNames, s).
          bindE (if numberFormat s = 0
                 then bindE (getNextRecord_float s) (\<lambda>(name, fs, s'). Inr (name, fs, [], s'))
                 else bindE (getNextRecord_int s) (\<lambda>(name, ws, s'). Inr (name, [], ws, s')))
            (\<lambda>(sampleName, intensity_float, intensity_int, s).
               let sampleNames = strcpy sampleNames (i * row_width s) sampleName
               in bindE (for_range (numProbes s)
                           (\<lambda>j xydTotal.
                              let index = j * numChannels s
                              in bindE (if numberFormat s = 0
                                        then bindE (vector_at intensity_float (index + 1))
                                               (\<lambda>a. bindE (vector_at intensity_float index)
                                                  (\<lambda>b. Inr (fsub a b)))
                                        else bindE (vector_at intensity_int (index + 1))
                                               (\<lambda>a. bindE (vector_at intensity_int index)
                                                  (\<lambda>b. Inr (float_of_int (uint a - uint b)))))
                                   (\<lambda>xyd. Inr (fadd xydTotal xyd)))
                           (Fin 0))
                    (\<lambda>xydTotal.
                       Inr (xydBySample[i := fdiv xydTotal (float_of_uint (numProbes s))],
                            sampleNames, s)))) i t = Inl e"
    unfolding xydiffBySample_def by (blast dest: for_range_error)
  obtain xs ns' s' where t: "t = (xs, ns', s')" by (cases t)
  show ?thesis
    using b unfolding t prod.case bindE_Inl_iff
    by (auto dest!: getNextRecord_float_error getNextRecord_int_error for_range_error vector_at_error
        simp: bindE_Inl_iff Let_def split: if_splits)
qed

text \<open>
  Claim C4. When the channel count is not 2, \<open>writeXydiff\<close> stops with its error, whatever
  the state of the record source: the check is the first statement, before the reset and
  before any record is read, and nothing is written. When the channel count is 2 the check
  passes: the result is that of the computation on the rewound source, and never this
  error.
\<close>

theorem xydiff_channel_check:
  "(numChannels s \<noteq> 2 \<longrightarrow> writeXydiff s = Inl ChannelCount) \<and>
   (numChannels s = 2 \<longrightarrow>
      writeXydiff s \<noteq> Inl ChannelCount \<and>
      writeXydiff s =
        bindE (xydiffBySample (replicate (numSamples s) (Fin 0))
                 (replicate (numSamples s * row_width s) None) (reset s))
          (\<lambda>(xydArray, sampleNames, s'). Inr (output_lines s' sampleNames xydArray, s')))"
proof (intro conjI impI)
  assume "numChannels s \<noteq> 2"
  then show "writeXydiff s = Inl ChannelCount" by (simp add: writeXydiff_def)
next
  assume c: "numChannels s = 2"
  then show e: "writeXydiff s =
        bindE (xydiffBySample (replicate (numSamples s) (Fin 0))
                 (replicate (numSamples s * row_width s) None) (reset s))
          (\<lambda>(xydArray, sampleNames, s'). Inr (output_lines s' sampleNames xydArray, s'))"
    by (simp add: writeXydiff_def)
  show "writeXydiff s \<noteq> Inl ChannelCount"
    unfolding e bindE_Inl_iff by (auto dest: xydiffBySample_error)
qed

theorem xydiff_channel_check_witness:
  "numChannels three_channels \<noteq> 2 \<and> writeXydiff three_channels = Inl ChannelCount \<and>
   numChannels scenario = 2 \<and> writeXydiff scenario \<noteq> Inl ChannelCount \<and>
   outcome (writeXydiff scenario) = Inr [(''S1'', Fin (1 / 2)), (''S2'', Fin 1)]"
proof -
  have a: "numChannels three_channels \<noteq> 2" by (simp add: three_channels_def)
  have b: "numChannels scenario = 2" by (simp add: scenario_def)
  have c: "outcome (writeXydiff scenario) = Inr [(''S1'', Fin (1 / 2)), (''S2'', Fin 1)]"
    by (simp add: scenario_def run_simps)
  from xydiff_channel_check [of three_channels] a
  have x: "writeXydiff three_channels = Inl ChannelCount" by blast
  from xydiff_channel_check [of scenario] b
  have y: "writeXydiff scenario \<noteq> Inl ChannelCount" by blast
  show ?thesis
    using a b c x y by blast
qed


section \<open>Arithmetic of the floating-point values\<close>

lemma fadd_scale: "0 < c \<Longrightarrow> fadd (fmul (Fin c) a) (fmul (Fin c) b) = fmul (Fin c) (fadd a b)"
  by (cases a; cases b) (simp_all add: distrib_left)

lemma fmul_scale: "0 < c \<Longrightarrow> fmul (fmul (Fin c) a) (fmul (Fin c) a) = fmul (Fin (c * c)) (fmul a a)"
  by (cases a) (simp_all add: mult_ac)

lemma fsqrt_scale: "0 < c \<Longrightarrow> fsqrt (fmul (Fin (c * c)) a) = fmul (Fin c) (fsqrt a)"
  by (cases a) (simp_all add: real_sqrt_mult mult_less_0_iff zero_less_mult_iff)

lemma fdiv_scale_both: "0 < c \<Longrightarrow> fdiv (fmul (Fin c) a) (fmul (Fin c) b) = fdiv a b"
  by (cases a; cases b) (simp_all add: zero_less_mult_iff zero_le_mult_iff)

lemma not_finite_fadd_left: "\<not> is_finite a \<Longrightarrow> \<not> is_finite (fadd a b)"
  by (cases a; cases b) simp_all

lemma not_finite_fadd_right: "\<not> is_finite b \<Longrightarrow> \<not> is_finite (fadd a b)"
  by (cases a; cases b) simp_all

lemma not_finite_foldl:
  "\<not> is_finite a \<or> (\<exists>x\<in>set xs. \<not> is_finite x) \<Longrightarrow> \<not> is_finite (foldl fadd a xs)"
proof (induction xs arbitrary: a)
  case Nil
  then show ?case by simp
next
  case (Cons x xs)
  then show ?case
    by (auto intro!: Cons.IH dest: not_finite_fadd_left not_finite_fadd_right)
qed

lemma not_finite_fsum: "x \<in> set xs \<Longrightarrow> \<not> is_finite x \<Longrightarrow> \<not> is_finite (fsum xs)"
  unfolding fsum_def by (rule not_finite_foldl) blast

lemma not_finite_fdiv_zero: "\<not> is_finite (fdiv a (Fin 0))"
  by (cases a) simp_all

lemma not_finite_fdiv_count: "\<not> is_finite a \<Longrightarrow> \<not> is_finite (fdiv a (float_of_uint n))"
  by (cases a) (simp_all add: float_of_uint_def)

section \<open>The passes over the record source\<close>

lemma history_advance: "history (advance k s) = history s @ map Read [cursor s..<cursor s + k]"
  by (simp add: advance_def)

lemma history_reset: "history (reset s) = history s @ [Reset]"
  by (simp add: reset_def)

text \<open>
  Claim C8. On a dataset whose source holds its \<open>N\<close> declared records, \<open>writeMagnitude\<close>
  makes exactly these calls on the record source, whatever was read before: a reset, the
  reads of the records \<open>0, \<dots>, N - 1\<close> in order, a reset, and the same \<open>N\<close> reads again.
  Pass 1 run a second time on the handle the first run leaves, after a reset, reads the
  same records in the same order and yields the same baselines.
\<close>

theorem magnitude_two_passes_of_N_reads:
  assumes "well_formed s"
  shows "map_option history (handle_after (writeMagnitude s)) =
           Some (history s @ [Reset] @ map Read [0..<numSamples s]
                           @ [Reset] @ map Read [0..<numSamples s]) \<and>
         (\<exists>B s1 s2.
            magnitudeByProbe (replicate (numProbes s) (Fin 0)) (reset s) = Inr (B, s1) \<and>
            history s1 = history s @ [Reset] @ map Read [0..<numSamples s] \<and>
            magnitudeByProbe (replicate (numProbes s) (Fin 0)) (reset s1) = Inr (B, s2) \<and>
            history s2 = history s1 @ [Reset] @ map Read [0..<numSamples s])"
proof
  show "map_option history (handle_after (writeMagnitude s)) =
           Some (history s @ [Reset] @ map Read [0..<numSamples s]
                           @ [Reset] @ map Read [0..<numSamples s])"
    using writeMagnitude_value [OF assms]
    by (simp add: handle_after_def history_advance history_reset)
next
  let ?z = "replicate (numProbes s) (Fin 0)"
  let ?B = "map (spec_baseline (numChannels s) (sample_values s)) [0..<numProbes s]"
  let ?s1 = "advance (numSamples s) (reset s)"
  let ?s2 = "advance (numSamples s) (reset ?s1)"
  have 1: "magnitudeByProbe ?z (reset s) = Inr (?B, ?s1)"
    using magnitudeByProbe_value [of "reset s"] assms by simp
  have 2: "magnitudeByProbe ?z (reset ?s1) = Inr (?B, ?s2)"
    using magnitudeByProbe_value [of "reset ?s1"] assms by simp
  have 3: "history ?s1 = history s @ [Reset] @ map Read [0..<numSamples s]"
    by (simp add: history_advance history_reset)
  have 4: "history ?s2 = history ?s1 @ [Reset] @ map Read [0..<numSamples s]"
    by (simp add: history_advance history_reset)
  from 1 2 3 4 show "\<exists>B s1 s2.
            magnitudeByProbe ?z (reset s) = Inr (B, s1) \<and>
            history s1 = history s @ [Reset] @ map Read [0..<numSamples s] \<and>
            magnitudeByProbe ?z (reset s1) = Inr (B, s2) \<and>
            history s2 = history s1 @ [Reset] @ map Read [0..<numSamples s]"
    by blast
qed

theorem magnitude_two_passes_of_N_reads_witness:
  "well_formed scenario \<and>
   map_option history (handle_after (writeMagnitude scenario)) =
     Some [Reset, Read 0, Read 1, Reset, Read 0, Read 1] \<and>
   outcome (magnitudeByProbe [Fin 0, Fin 0] (reset scenario)) = Inr [Fin (5 / 2), Fin 5] \<and>
   outcome (magnitudeByProbe [Fin 0, Fin 0]
              (reset (the (handle_after (magnitudeByProbe [Fin 0, Fin 0] (reset scenario))))))
     = Inr [Fin (5 / 2), Fin 5]"
proof -
  have h: "history scenario @ [Reset] @ map Read [0..<numSamples scenario]
             @ [Reset] @ map Read [0..<numSamples scenario]
           = [Reset, Read 0, Read 1, Reset, Read 0, Read 1]"
    by (simp add: scenario_def upt_conv_Cons)
  have a: "map_option history (handle_after (writeMagnitude scenario)) =
             Some [Reset, Read 0, Read 1, Reset, Read 0, Read 1]"
    using magnitude_two_passes_of_N_reads [OF well_formed_scenario] by (simp only: h)
  have b: "outcome (magnitudeByProbe [Fin 0, Fin 0] (reset scenario)) = Inr [Fin (5 / 2), Fin 5]"
    by (simp add: scenario_def run_simps sqrt_25 sqrt_100)
  have c: "outcome (magnitudeByProbe [Fin 0, Fin 0]
              (reset (the (handle_after (magnitudeByProbe [Fin 0, Fin 0] (reset scenario))))))
           = Inr [Fin (5 / 2), Fin 5]"
    by (simp add: scenario_def run_simps handle_after_def sqrt_25 sqrt_100)
  show ?thesis
    using well_formed_scenario a b c by blast
qed

section \<open>The two encodings\<close>

lemma signal_at_encodings:
  "fmt \<noteq> 0 \<Longrightarrow> signal_at fmt [] ws k = signal_at 0 (map float_of_uint16 ws) [] k"
  by (simp add: signal_at_def vector_at_def)

lemma next_record_header:
  assumes "next_record s = Inr (r, s')"
  shows "numProbes s' = numProbes s" "numChannels s' = numChannels s"
    "numberFormat s' = numberFormat s"
  using assms by (auto simp: next_record_def split: if_splits)

text \<open>
  Claim C6. Take a fixed-point record and the floating-point record of the same name whose
  values are the numbers of the fixed-point values, each as the next record of a handle of
  its encoding, the two handles having the same probe and channel counts. Then
  \<open>getNextMagnitudes\<close> yields the same result on both, error or array; when the record
  holds its \<open>P * C\<close> values, both branches return the same array of length \<open>P\<close>.
\<close>

theorem getNextMagnitudes_encoding_agnostic:
  assumes fi: "numberFormat si \<noteq> 0" and ff: "numberFormat sf = 0"
    and P: "numProbes sf = numProbes si" and C: "numChannels sf = numChannels si"
    and ri: "next_record si = Inr ((name, IntValues ws), si')"
    and rf: "next_record sf = Inr ((name, FloatValues (map float_of_uint16 ws)), sf')"
  shows "map_sum id fst (getNextMagnitudes magnitudes sf)
           = map_sum id fst (getNextMagnitudes magnitudes si) \<and>
         (numProbes si * numChannels si \<le> length ws \<and> length magnitudes = numProbes si \<longrightarrow>
            (\<exists>m. length m = numProbes si \<and>
                 getNextMagnitudes magnitudes si = Inr (m, name, si') \<and>
                 getNextMagnitudes magnitudes sf = Inr (m, name, sf')))"
proof
  let ?loop = "for_range (numProbes si)
                 (\<lambda>i magnitudes.
                    bindE (for_range (numChannels si)
                             (\<lambda>j total.
                                bindE (signal_at 0 (map float_of_uint16 ws) []
                                         (i * numChannels si + j))
                                  (\<lambda>signal. Inr (fadd total (fmul signal signal))))
                             (Fin 0))
                      (\<lambda>total. Inr (magnitudes[i := fsqrt total])))
                 magnitudes"
  have gi: "getNextMagnitudes magnitudes si
            = bindE ?loop (\<lambda>magnitudes. Inr (magnitudes, name, si'))"
    using fi ri next_record_header [OF ri]
    by (simp add: getNextMagnitudes_def getNextRecord_int_def signal_at_encodings)
  have gf: "getNextMagnitudes magnitudes sf
            = bindE ?loop (\<lambda>magnitudes. Inr (magnitudes, name, sf'))"
    using ff rf next_record_header [OF rf] P C
    by (simp add: getNextMagnitudes_def getNextRecord_float_def)
  show "map_sum id fst (getNextMagnitudes magnitudes sf)
          = map_sum id fst (getNextMagnitudes magnitudes si)"
    unfolding gi gf by (cases ?loop) simp_all
  show "numProbes si * numChannels si \<le> length ws \<and> length magnitudes = numProbes si \<longrightarrow>
            (\<exists>m. length m = numProbes si \<and>
                 getNextMagnitudes magnitudes si = Inr (m, name, si') \<and>
                 getNextMagnitudes magnitudes sf = Inr (m, name, sf'))"
  proof
    assume a: "numProbes si * numChannels si \<le> length ws \<and> length magnitudes = numProbes si"
    from ri have c: "cursor si < numSamples si" "cursor si < length (records si)"
      and r: "records si ! cursor si = (name, IntValues ws)" and s: "si' = read_step si"
      by (auto simp: next_record_def read_step_def split: if_splits)
    have v: "getNextMagnitudes magnitudes si
             = Inr (map (spec_magnitude (numChannels si) (numeric_values (IntValues ws)))
                      [0..<numProbes si], name, si')"
      unfolding s using a fi
      by (intro getNextMagnitudes_value c r) (simp_all add: matches_format_def numeric_values_def)
    then obtain m where m: "getNextMagnitudes magnitudes si = Inr (m, name, si')"
      and l: "length m = numProbes si"
      by simp
    from m have "?loop = Inr m"
      unfolding gi by (cases ?loop) simp_all
    then have "getNextMagnitudes magnitudes sf = Inr (m, name, sf')"
      unfolding gf by simp
    with m l show "\<exists>m. length m = numProbes si \<and>
                 getNextMagnitudes magnitudes si = Inr (m, name, si') \<and>
                 getNextMagnitudes magnitudes sf = Inr (m, name, sf')"
      by blast
  qed
qed

theorem getNextMagnitudes_encoding_agnostic_witness:
  "numberFormat scenario \<noteq> 0 \<and> numberFormat scenario_float = 0 \<and>
   numProbes scenario_float = numProbes scenario \<and>
   numChannels scenario_float = numChannels scenario \<and>
   next_record scenario = Inr ((''S1'', IntValues [3, 4, 0, 0]), read_step scenario) \<and>
   next_record scenario_float =
     Inr ((''S1'', FloatValues (map float_of_uint16 [3, 4, 0, 0])), read_step scenario_float) \<and>
   map_sum id fst (getNextMagnitudes [Fin 0, Fin 0] scenario_float) = Inr [Fin 5, Fin 0] \<and>
   map_sum id fst (getNextMagnitudes [Fin 0, Fin 0] scenario) = Inr [Fin 5, Fin 0]"
proof -
  have fi: "numberFormat scenario \<noteq> 0" and ff: "numberFormat scenario_float = 0"
    and P: "numProbes scenario_float = numProbes scenario"
    and C: "numChannels scenario_float = numChannels scenario"
    by (simp_all add: scenario_def scenario_float_def)
  have ri: "next_record scenario =
              Inr ((''S1'', IntValues [3, 4, 0, 0]), read_step scenario)"
    by (simp add: next_record_def read_step_def scenario_def)
  have rf: "next_record scenario_float =
              Inr ((''S1'', FloatValues (map float_of_uint16 [3, 4, 0, 0])), read_step scenario_float)"
    by (simp add: next_record_def read_step_def scenario_float_def float_of_uint16_def)
  have e: "map_sum id fst (getNextMagnitudes [Fin 0, Fin 0] scenario) = Inr [Fin 5, Fin 0]"
    by (simp add: scenario_def run_simps sqrt_25)
  from getNextMagnitudes_encoding_agnostic [OF fi ff P C ri rf, of "[Fin 0, Fin 0]"]
  have "map_sum id fst (getNextMagnitudes [Fin 0, Fin 0] scenario_float)
        = map_sum id fst (getNextMagnitudes [Fin 0, Fin 0] scenario)"
    by blast
  with e have "map_sum id fst (getNextMagnitudes [Fin 0, Fin 0] scenario_float) = Inr [Fin 5, Fin 0]"
    by simp
  with e fi ff P C ri rf show ?thesis by blast
qed

section \<open>Rounding to binary32\<close>

lemma round_half_even_of_int [simp]: "round_half_even (of_int m) = m"
  by (simp add: round_half_even_def)

lemma round_half_even_ge:
  assumes "of_int m \<le> y"
  shows "m \<le> round_half_even y"
proof -
  have "m \<le> \<lfloor>y\<rfloor>"
    using assms by (simp add: le_floor_iff)
  then show ?thesis
    by (simp add: round_half_even_def Let_def)
qed

lemma nearest_grid: "0 < q \<Longrightarrow> nearest q (of_int m * q) = of_int m * q"
  by (simp add: nearest_def)

lemma quantum32_pos: "0 < quantum32 x"
  by (simp add: quantum32_def)

lemma quantum24_pos: "0 < quantum24 x"
  by (simp add: quantum24_def)

lemma round32_zero [simp]: "round32 0 = Fin 0"
  by (simp add: round32_def)

lemma round24_zero [simp]: "round24 0 = Fin 0"
  by (simp add: round24_def)

text \<open>A number with a significand of 24 bits is on the grid of its binade.\<close>

lemma floor_log_dyadic:
  assumes n: "n \<noteq> 0" "\<bar>n\<bar> < 2 ^ 24" and x: "x = of_int n * 2 powr of_int k"
  shows "\<lfloor>log 2 \<bar>x\<bar>\<rfloor> \<le> k + 23"
proof -
  have ax: "\<bar>x\<bar> = \<bar>of_int n\<bar> * 2 powr of_int k"
    by (simp add: x abs_mult)
  have pos: "0 < \<bar>x\<bar>"
    using n(1) by (simp add: x)
  have "\<bar>of_int n :: real\<bar> < 2 ^ 24"
    using n(2) by (metis of_int_abs of_int_less_iff of_int_numeral of_int_power)
  then have "\<bar>x\<bar> < 2 ^ 24 * 2 powr of_int k"
    unfolding ax by (intro mult_strict_right_mono) simp_all
  also have "\<dots> = 2 powr (of_int k + 24)"
    by (simp add: powr_add)
  finally have "log 2 \<bar>x\<bar> < of_int k + 24"
    using pos by (simp add: log_less_iff)
  then have "\<lfloor>log 2 \<bar>x\<bar>\<rfloor> < k + 24"
    by (simp add: floor_less_iff)
  then show ?thesis by simp
qed

lemma dyadic_multiple:
  assumes "e \<le> k + 23"
  shows "of_int n * (2::real) powr of_int k
         = of_int (n * 2 ^ nat (k + 23 - e)) * 2 powr (of_int e - 23)"
proof -
  define d where "d = k + 23 - e"
  have d: "0 \<le> d"
    using assms by (simp add: d_def)
  have "(of_int k :: real) = of_int d + (of_int e - 23)"
    by (simp add: d_def)
  then have "(2::real) powr of_int k = 2 powr of_int d * 2 powr (of_int e - 23)"
    by (simp only: powr_add)
  moreover have "(2::real) powr of_int d = of_int (2 ^ nat d)"
    using d by (simp add: powr_int)
  ultimately have "of_int n * (2::real) powr of_int k
                   = of_int (n * 2 ^ nat d) * 2 powr (of_int e - 23)"
    by simp
  then show ?thesis
    unfolding d_def .
qed

lemma round24_dyadic:
  assumes n: "\<bar>n\<bar> < 2 ^ 24" and x: "x = of_int n * 2 powr of_int k"
  shows "round24 x = Fin x"
proof (cases "n = 0")
  case True
  then show ?thesis by (simp add: x)
next
  case False
  let ?e = "\<lfloor>log 2 \<bar>x\<bar>\<rfloor>"
  have "?e \<le> k + 23"
    by (rule floor_log_dyadic [OF False n x])
  then have "x = of_int (n * 2 ^ nat (k + 23 - ?e)) * quantum24 x"
    unfolding quantum24_def x [symmetric] by (subst x) (rule dyadic_multiple)
  then have "nearest (quantum24 x) x = x"
    using nearest_grid [OF quantum24_pos, of x "n * 2 ^ nat (k + 23 - ?e)"] by simp
  moreover have "x \<noteq> 0"
    using False by (simp add: x)
  ultimately show ?thesis
    by (simp add: round24_def)
qed

lemma round32_dyadic:
  assumes n: "\<bar>n\<bar> < 2 ^ 24" and k: "- 149 \<le> k" and x: "x = of_int n * 2 powr of_int k"
    and b: "\<bar>x\<bar> < 2 ^ 128"
  shows "round32 x = Fin x"
proof (cases "n = 0")
  case True
  then show ?thesis by (simp add: x)
next
  case False
  let ?e = "max \<lfloor>log 2 \<bar>x\<bar>\<rfloor> (- 126)"
  have "\<lfloor>log 2 \<bar>x\<bar>\<rfloor> \<le> k + 23"
    by (rule floor_log_dyadic [OF False n x])
  then have "?e \<le> k + 23"
    using k by simp
  then have "x = of_int (n * 2 ^ nat (k + 23 - ?e)) * quantum32 x"
    unfolding quantum32_def x [symmetric] by (subst x) (rule dyadic_multiple)
  then have "nearest (quantum32 x) x = x"
    using nearest_grid [OF quantum32_pos, of x "n * 2 ^ nat (k + 23 - ?e)"] by simp
  moreover have "x \<noteq> 0"
    using False by (simp add: x)
  ultimately show ?thesis
    using b by (simp add: round32_def)
qed

lemma round24_of_int: "\<bar>n\<bar> < 2 ^ 24 \<Longrightarrow> round24 (of_int n) = Fin (of_int n)"
  by (rule round24_dyadic [of n _ 0]) simp_all

lemma round32_of_int:
  assumes "\<bar>n\<bar> < 2 ^ 24"
  shows "round32 (of_int n) = Fin (of_int n)"
proof -
  have "\<bar>of_int n :: real\<bar> < 2 ^ 24"
    using assms by (metis of_int_abs of_int_less_iff of_int_numeral of_int_power)
  then have "\<bar>of_int n :: real\<bar> < 2 ^ 128"
    by (rule less_trans) simp
  then show ?thesis
    by (intro round32_dyadic [of n 0] assms) simp_all
qed

lemma round32_half:
  assumes "\<bar>n\<bar> < 2 ^ 24"
  shows "round32 (of_int n / 2) = Fin (of_int n / 2)"
proof -
  have "\<bar>of_int n :: real\<bar> < 2 ^ 24"
    using assms by (metis of_int_abs of_int_less_iff of_int_numeral of_int_power)
  then have "\<bar>of_int n / 2 :: real\<bar> < 2 ^ 128"
    by simp
  then show ?thesis
    by (intro round32_dyadic [of n "- 1"] assms) (simp_all add: powr_minus field_simps)
qed

text \<open>Every \<open>uint16_t\<close> is a binary32 number.\<close>

lemma round32_uint16: "round32 (real (unat (w :: 16 word))) = Fin (real (unat w))"
proof -
  have "uint w < 2 ^ 16"
    using uint_lt2p [of w] by simp
  then have "\<bar>uint w\<bar> < 2 ^ 24"
    by simp
  from round32_of_int [OF this] show ?thesis
    by (simp add: of_nat_unat)
qed

text \<open>A result of \<open>2^128\<close> or more is an infinity.\<close>

lemma round32_overflow:
  assumes "2 ^ 128 \<le> x"
  shows "round32 x = PInf"
proof -
  have "(0::real) < 2 ^ 128"
    by simp
  then have pos: "0 < x"
    using assms by (rule less_le_trans)
  let ?e = "\<lfloor>log 2 \<bar>x\<bar>\<rfloor>"
  have "(2::real) powr 128 \<le> x"
    using assms by simp
  then have l: "128 \<le> log 2 x"
    using pos by (simp add: le_log_iff)
  then have e: "128 \<le> ?e"
    using pos by (simp add: le_floor_iff)
  then have q: "quantum32 x = 2 powr (of_int ?e - 23)"
    by (simp add: quantum32_def max_def)
  have span: "quantum32 x * 2 ^ 23 = 2 powr of_int ?e"
    by (simp add: q powr_diff)
  have "2 powr of_int ?e \<le> x"
    using pos floor_log_eq_powr_iff [of x 2 ?e] by simp
  then have "2 ^ 23 * quantum32 x \<le> x"
    using span by (simp only: mult.commute)
  then have "2 ^ 23 \<le> x / quantum32 x"
    using quantum32_pos [of x] by (simp only: pos_le_divide_eq)
  then have "of_int (2 ^ 23) \<le> x / quantum32 x"
    by simp
  then have "2 ^ 23 \<le> round_half_even (x / quantum32 x)"
    by (rule round_half_even_ge)
  then have r: "(2::real) ^ 23 \<le> of_int (round_half_even (x / quantum32 x))"
    by (metis of_int_le_iff of_int_numeral of_int_power)
  have "(2::real) powr 128 \<le> 2 powr of_int ?e"
    by (rule powr_mono) (use l pos in simp_all)
  then have "(2::real) ^ 128 \<le> 2 powr of_int ?e"
    by simp
  also have "\<dots> = quantum32 x * 2 ^ 23"
    by (rule span [symmetric])
  also have "\<dots> \<le> nearest (quantum32 x) x"
    unfolding nearest_def using quantum32_pos [of x] r by (intro mult_left_mono) simp_all
  finally have "2 ^ 128 \<le> \<bar>nearest (quantum32 x) x\<bar>"
    by simp
  then show ?thesis
    using pos by (simp add: round32_def Let_def)
qed

text \<open>Without a bound on the exponent, rounding commutes with a power of two.\<close>

lemma round24_scale: "round24 (2 powr of_int n * x) = fmul (Fin (2 powr of_int n)) (round24 x)"
proof (cases "x = 0")
  case True
  then show ?thesis by simp
next
  case False
  have "log 2 \<bar>2 powr of_int n * x\<bar> = of_int n + log 2 \<bar>x\<bar>"
    using False by (simp add: abs_mult log_mult)
  then have "\<lfloor>log 2 \<bar>2 powr of_int n * x\<bar>\<rfloor> = n + \<lfloor>log 2 \<bar>x\<bar>\<rfloor>"
    by simp
  then have q: "quantum24 (2 powr of_int n * x) = 2 powr of_int n * quantum24 x"
    by (simp add: quantum24_def powr_add [symmetric] algebra_simps)
  have "nearest (quantum24 (2 powr of_int n * x)) (2 powr of_int n * x)
        = 2 powr of_int n * nearest (quantum24 x) x"
    unfolding q by (simp add: nearest_def)
  then show ?thesis
    using False by (simp add: round24_def)
qed


lemma scales_round24: "scales round24 (2 powr of_int n)"
  by (simp add: scales_def round24_scale)

text \<open>In the range of the normal numbers the two roundings agree.\<close>

lemma round32_normal:
  assumes x: "2 powr (- 126) \<le> \<bar>x\<bar>" and r: "round24 x = Fin r" and b: "\<bar>r\<bar> < 2 ^ 128"
  shows "round32 x = Fin r"
proof -
  have "(0::real) < 2 powr (- 126)"
    by simp
  then have pos: "0 < \<bar>x\<bar>"
    using x by (rule less_le_trans)
  then have "- 126 \<le> log 2 \<bar>x\<bar>"
    using x by (simp add: le_log_iff)
  then have "- 126 \<le> \<lfloor>log 2 \<bar>x\<bar>\<rfloor>"
    by (simp add: le_floor_iff)
  then have "max \<lfloor>log 2 \<bar>x\<bar>\<rfloor> (- 126) = \<lfloor>log 2 \<bar>x\<bar>\<rfloor>"
    by (rule max_absorb1)
  then have q: "quantum32 x = quantum24 x"
    by (simp only: quantum32_def quantum24_def)
  have "nearest (quantum24 x) x = r"
    using r pos by (simp add: round24_def)
  then show ?thesis
    using pos b by (simp add: round32_def q)
qed

text \<open>The rounding of a number in the binade of \<open>2^e\<close>.\<close>

lemma round32_in_binade:
  assumes lo: "2 powr of_int e \<le> \<bar>x\<bar>" and hi: "\<bar>x\<bar> < 2 powr (of_int e + 1)"
    and e: "- 126 \<le> e"
    and r: "nearest (2 powr (of_int e - 23)) x = r" and b: "\<bar>r\<bar> < 2 ^ 128"
  shows "round32 x = Fin r"
proof -
  have "(0::real) < 2 powr of_int e"
    by simp
  then have pos: "0 < \<bar>x\<bar>"
    using lo by (rule less_le_trans)
  then have "\<lfloor>log 2 \<bar>x\<bar>\<rfloor> = e"
    using lo hi floor_log_eq_powr_iff [of "\<bar>x\<bar>" 2 e] by simp
  then have "max \<lfloor>log 2 \<bar>x\<bar>\<rfloor> (- 126) = e"
    using e by simp
  then have "quantum32 x = 2 powr (of_int e - 23)"
    by (simp only: quantum32_def)
  then show ?thesis
    using pos r b by (simp add: round32_def)
qed

lemma round32_numeral: "numeral w < (2::int) ^ 24 \<Longrightarrow> round32 (numeral w) = Fin (numeral w)"
  using round32_of_int [of "numeral w"] by simp

lemma round32_one: "round32 1 = Fin 1"
  using round32_of_int [of 1] by simp

lemma round32_numeral_half:
  "numeral w < (2::int) ^ 24 \<Longrightarrow> round32 (numeral w / 2) = Fin (numeral w / 2)"
  using round32_half [of "numeral w"] by simp

text \<open>Rounding is monotone.\<close>

lemma round_half_even_le:
  assumes "y \<le> of_int m"
  shows "round_half_even y \<le> m"
proof (cases "y = of_int m")
  case True
  then show ?thesis by simp
next
  case False
  then have "y < of_int m"
    using assms by simp
  then have "\<lfloor>y\<rfloor> < m"
    by (simp add: floor_less_iff)
  then show ?thesis
    by (simp add: round_half_even_def Let_def)
qed

lemma round_half_even_bounds: "\<lfloor>y\<rfloor> \<le> round_half_even y" "round_half_even y \<le> \<lfloor>y\<rfloor> + 1"
  by (simp_all add: round_half_even_def Let_def)

lemma round_half_even_mono:
  assumes "y \<le> z"
  shows "round_half_even y \<le> round_half_even z"
proof (cases "\<lfloor>y\<rfloor> = \<lfloor>z\<rfloor>")
  case True
  then show ?thesis
    using assms by (simp add: round_half_even_def Let_def)
next
  case False
  then have "\<lfloor>y\<rfloor> < \<lfloor>z\<rfloor>"
    using floor_mono [OF assms] by simp
  then have "\<lfloor>y\<rfloor> + 1 \<le> \<lfloor>z\<rfloor>"
    by simp
  then show ?thesis
    using round_half_even_bounds(2) [of y] round_half_even_bounds(1) [of z] by linarith
qed

lemma nearest_mono: "0 < q \<Longrightarrow> x \<le> y \<Longrightarrow> nearest q x \<le> nearest q y"
  by (simp add: nearest_def round_half_even_mono divide_right_mono)

text \<open>The rounding of a positive number stays in its binade.\<close>

lemma nearest_binade:
  assumes lo: "2 powr of_int e \<le> x" and hi: "x < 2 powr (of_int e + 1)"
  shows "2 powr of_int e \<le> nearest (2 powr (of_int e - 23)) x"
    and "nearest (2 powr (of_int e - 23)) x \<le> 2 powr (of_int e + 1)"
proof -
  let ?q = "2 powr (of_int e - 23) :: real"
  have q: "0 < ?q"
    by simp
  have a: "2 powr of_int e = of_int (2 ^ 23) * ?q"
    by (simp add: powr_diff)
  have b: "2 powr (of_int e + 1) = of_int (2 ^ 24) * ?q"
    by (simp add: powr_diff powr_add)
  have "nearest ?q (of_int (2 ^ 23) * ?q) \<le> nearest ?q x"
    using lo unfolding a by (rule nearest_mono [OF q])
  then show "2 powr of_int e \<le> nearest ?q x"
    unfolding a nearest_grid [OF q] .
  have "nearest ?q x \<le> nearest ?q (of_int (2 ^ 24) * ?q)"
    using hi unfolding b by (intro nearest_mono [OF q]) simp
  then show "nearest ?q x \<le> 2 powr (of_int e + 1)"
    unfolding b nearest_grid [OF q] .
qed

lemma quantum24_binade:
  assumes "2 powr of_int e \<le> x" and "x < 2 powr (of_int e + 1)"
  shows "quantum24 x = 2 powr (of_int e - 23)"
proof -
  have "(0::real) < 2 powr of_int e"
    by simp
  then have pos: "0 < x"
    using assms(1) by (rule less_le_trans)
  then have "\<lfloor>log 2 \<bar>x\<bar>\<rfloor> = e"
    using assms floor_log_eq_powr_iff [of x 2 e] by simp
  then show ?thesis
    by (simp only: quantum24_def)
qed

lemma binade_of_positive:
  assumes "0 < x"
  shows "2 powr of_int \<lfloor>log 2 x\<rfloor> \<le> x" "x < 2 powr (of_int \<lfloor>log 2 x\<rfloor> + 1)"
  using assms floor_log_eq_powr_iff [of x 2 "\<lfloor>log 2 x\<rfloor>"] by simp_all

lemma value24_mono:
  assumes x: "0 < x" and xy: "x \<le> y"
  shows "value24 x \<le> value24 y"
proof -
  let ?e = "\<lfloor>log 2 x\<rfloor>" and ?f = "\<lfloor>log 2 y\<rfloor>"
  have y: "0 < y"
    using x xy by simp
  note bx = binade_of_positive [OF x] and cy = binade_of_positive [OF y]
  have qx: "quantum24 x = 2 powr (of_int ?e - 23)"
    by (rule quantum24_binade [OF bx])
  have qy: "quantum24 y = 2 powr (of_int ?f - 23)"
    by (rule quantum24_binade [OF cy])
  have ef: "?e \<le> ?f"
    using x xy by (intro floor_mono) simp
  show ?thesis
  proof (cases "?e = ?f")
    case True
    then show ?thesis
      unfolding value24_def qx qy using xy by (simp add: nearest_mono)
  next
    case False
    then have "?e + 1 \<le> ?f"
      using ef by simp
    then have "(2::real) powr (of_int ?e + 1) \<le> 2 powr of_int ?f"
      by (intro powr_mono) (simp_all flip: of_int_le_iff add: algebra_simps)
    then show ?thesis
      unfolding value24_def qx qy
      using nearest_binade(2) [OF bx] nearest_binade(1) [OF cy] by linarith
  qed
qed

section \<open>The magnitude computation in rounded arithmetic\<close>

text \<open>
  With the rounding that changes nothing, the rounded computation is the computation of
  the section on QC.cpp.
\<close>

lemma rounded_exact: "rounded Fin a = a"
  by (cases a) (simp_all add: rounded_def)

lemma exact_operations:
  "fadd_r Fin = fadd" "fmul_r Fin = fmul" "fdiv_r Fin = fdiv" "fsqrt_r Fin = fsqrt"
  "count_r Fin = float_of_uint"
  by (simp_all add: fun_eq_iff fadd_r_def fmul_r_def fdiv_r_def fsqrt_r_def count_r_def
        rounded_exact)

lemma getNextMagnitudes_exact: "getNextMagnitudes_r Fin = getNextMagnitudes"
  by (simp add: fun_eq_iff getNextMagnitudes_r_def getNextMagnitudes_def exact_operations)

lemma writeMagnitude_exact: "writeMagnitude_r Fin s = writeMagnitude s"
  by (simp add: writeMagnitude_r_def writeMagnitude_def magnitudeByProbe_r_def
        magnitudeByProbe_def magnitudeBySample_r_def magnitudeBySample_def
        getNextMagnitudes_exact exact_operations)

text \<open>The runs in closed form, as for the exact operations.\<close>

lemma fold_accumulate_r: "fold (\<lambda>x t. fadd_r rnd t (h x)) xs t0 = foldl (fadd_r rnd) t0 (map h xs)"
  by (induction xs arbitrary: t0) auto

lemma getNextMagnitudes_value_r:
  assumes c: "cursor s < numSamples s" "cursor s < length (records s)"
    and r: "records s ! cursor s = (name, v)"
    and m: "matches_format (numberFormat s) v"
    and l: "numProbes s * numChannels s \<le> length (numeric_values v)"
    and g: "length mags = numProbes s"
  shows "getNextMagnitudes_r rnd mags s =
           Inr (map (spec_magnitude_r rnd (numChannels s) (numeric_values v)) [0..<numProbes s],
                name, read_step s)"
proof -
  let ?fl = "case v of FloatValues fs \<Rightarrow> fs | IntValues ws \<Rightarrow> []"
  let ?in = "case v of FloatValues fs \<Rightarrow> [] | IntValues ws \<Rightarrow> ws"
  let ?vs = "numeric_values v"
  let ?C = "numChannels s" and ?P = "numProbes s"
  have rd: "(if numberFormat s = 0
            then bindE (getNextRecord_float s) (\<lambda>(name, fs, s'). Inr (name, fs, [], s'))
            else bindE (getNextRecord_int s) (\<lambda>(name, ws, s'). Inr (name, [], ws, s')))
          = Inr (name, ?fl, ?in, read_step s)"
    using c r m
    by (cases v)
       (simp_all add: getNextRecord_float_def getNextRecord_int_def next_record_def
          matches_format_def read_step_def)
  have inner: "for_range ?C
                 (\<lambda>j total. bindE (signal_at (numberFormat s) ?fl ?in (i * ?C + j))
                                (\<lambda>signal. Inr (fadd_r rnd total (fmul_r rnd signal signal))))
                 (Fin 0)
               = Inr (fsum_r rnd (map (\<lambda>j. fmul_r rnd (?vs ! (i * ?C + j)) (?vs ! (i * ?C + j))) [0..<?C]))"
    if "i < ?P" for i
  proof -
    have "for_range ?C
                 (\<lambda>j total. bindE (signal_at (numberFormat s) ?fl ?in (i * ?C + j))
                                (\<lambda>signal. Inr (fadd_r rnd total (fmul_r rnd signal signal))))
                 (Fin 0)
          = Inr (fold (\<lambda>j total. fadd_r rnd total (fmul_r rnd (?vs ! (i * ?C + j)) (?vs ! (i * ?C + j))))
                   [0..<?C] (Fin 0))"
    proof (rule for_range_pure)
      fix j t assume "j < ?C"
      with that l have "i * ?C + j < length ?vs"
        using index_in_range [of i ?P j ?C] by simp
      then show "bindE (signal_at (numberFormat s) ?fl ?in (i * ?C + j))
                   (\<lambda>signal. Inr (fadd_r rnd t (fmul_r rnd signal signal)))
                 = Inr (fadd_r rnd t (fmul_r rnd (?vs ! (i * ?C + j)) (?vs ! (i * ?C + j))))"
        using m by (simp add: signal_at_values)
    qed
    then show ?thesis by (simp add: fold_accumulate_r fsum_r_def)
  qed
  have outer: "for_range ?P
                 (\<lambda>i magnitudes.
                    bindE (for_range ?C
                             (\<lambda>j total. bindE (signal_at (numberFormat s) ?fl ?in (i * ?C + j))
                                (\<lambda>signal. Inr (fadd_r rnd total (fmul_r rnd signal signal))))
                             (Fin 0))
                      (\<lambda>total. Inr (magnitudes[i := fsqrt_r rnd total])))
                 mags
               = Inr (fold (\<lambda>i m. m[i := spec_magnitude_r rnd ?C ?vs i]) [0..<?P] mags)"
    by (rule for_range_pure) (simp add: inner spec_magnitude_r_def)
  show ?thesis
    unfolding getNextMagnitudes_r_def rd
    using g by (simp add: read_step_def outer fold_update_all [where g = "\<lambda>i x. spec_magnitude_r rnd ?C ?vs i"])
qed

lemma getNextMagnitudes_advance_r:
  assumes wf: "well_formed s" and c0: "cursor s = 0" and k: "k < numSamples s"
    and lm: "length mags = numProbes s"
  shows "getNextMagnitudes_r rnd mags (advance k s) =
           Inr (map (spec_magnitude_r rnd (numChannels s) (sample_values s ! k)) [0..<numProbes s],
                sample_names s ! k, advance (Suc k) s)"
proof -
  from wf k obtain name v where r: "records s ! k = (name, v)"
    and m: "matches_format (numberFormat s) v"
    and l: "numProbes s * numChannels s \<le> length (numeric_values v)"
    and len: "k < length (records s)"
    by (rule well_formed_nth)
  have n: "sample_names s ! k = name"
    using r len k by (simp add: sample_names_def)
  show ?thesis
    using getNextMagnitudes_value_r [of "advance k s" name v mags] r m l len k c0 lm
    by (simp add: read_step_advance sample_values_nth [OF wf k r] n)
qed

lemma magnitudeByProbe_loop_r:
  assumes wf: "well_formed s" and c0: "cursor s = 0"
    and lmb: "length mb = numProbes s" and lm: "length mags = numProbes s"
  shows "k \<le> numSamples s \<Longrightarrow>
         \<exists>mags'. length mags' = numProbes s \<and>
           for_range k
             (\<lambda>i (magByProbe, magnitudes, s).
                 bindE (getNextMagnitudes_r rnd magnitudes s)
                   (\<lambda>(magnitudes, sampleName, s).
                      Inr (fold (\<lambda>j magByProbe.
                                   magByProbe[j := fadd_r rnd (magByProbe ! j) (magnitudes ! j)])
                             [0..<numProbes s] magByProbe,
                           magnitudes, s)))
             (mb, mags, s)
           = Inr (map (\<lambda>i. foldl (fadd_r rnd) (mb ! i)
                              (map (\<lambda>v. spec_magnitude_r rnd (numChannels s) v i) (take k (sample_values s))))
                    [0..<numProbes s],
                  mags', advance k s)"
proof (induction k)
  case 0
  have "map ((!) mb) [0..<numProbes s] = mb"
    using map_nth [of mb] lmb by simp
  then show ?case using lm by simp
next
  case (Suc k)
  let ?P = "numProbes s" and ?C = "numChannels s"
  let ?acc = "\<lambda>k. map (\<lambda>i. foldl (fadd_r rnd) (mb ! i)
                 (map (\<lambda>v. spec_magnitude_r rnd ?C v i) (take k (sample_values s)))) [0..<?P]"
  let ?m = "map (spec_magnitude_r rnd ?C (sample_values s ! k)) [0..<?P]"
  from Suc obtain mags' where l': "length mags' = ?P"
    and ih: "for_range k
             (\<lambda>i (magByProbe, magnitudes, s).
                 bindE (getNextMagnitudes_r rnd magnitudes s)
                   (\<lambda>(magnitudes, sampleName, s).
                      Inr (fold (\<lambda>j magByProbe.
                                   magByProbe[j := fadd_r rnd (magByProbe ! j) (magnitudes ! j)])
                             [0..<numProbes s] magByProbe,
                           magnitudes, s)))
             (mb, mags, s) = Inr (?acc k, mags', advance k s)"
    by auto
  from Suc.prems have k: "k < numSamples s" by simp
  have tk: "take (Suc k) (sample_values s) = take k (sample_values s) @ [sample_values s ! k]"
    using k wf by (simp add: take_Suc_conv_app_nth length_sample_values)
  have upd: "fold (\<lambda>j magByProbe. magByProbe[j := fadd_r rnd (magByProbe ! j) (?m ! j)]) [0..<?P] (?acc k)
             = ?acc (Suc k)"
    by (simp add: fold_update_all [where g = "\<lambda>j x. fadd_r rnd x (?m ! j)"] tk)
  show ?case
    by (rule exI [of _ ?m])
       (simp add: for_range_Suc ih getNextMagnitudes_advance_r [OF wf c0 k l'] upd)
qed

lemma magnitudeByProbe_value_r:
  assumes wf: "well_formed s" and c0: "cursor s = 0"
  shows "magnitudeByProbe_r rnd (replicate (numProbes s) (Fin 0)) s =
           Inr (map (spec_baseline_r rnd (numChannels s) (sample_values s)) [0..<numProbes s],
                advance (numSamples s) s)"
proof -
  let ?P = "numProbes s" and ?C = "numChannels s" and ?N = "numSamples s"
  let ?acc = "map (\<lambda>i. foldl (fadd_r rnd) (replicate ?P (Fin 0) ! i)
                 (map (\<lambda>v. spec_magnitude_r rnd ?C v i) (take ?N (sample_values s)))) [0..<?P]"
  obtain mags' where
    loop: "for_range ?N
             (\<lambda>i (magByProbe, magnitudes, s).
                 bindE (getNextMagnitudes_r rnd magnitudes s)
                   (\<lambda>(magnitudes, sampleName, s).
                      Inr (fold (\<lambda>j magByProbe.
                                   magByProbe[j := fadd_r rnd (magByProbe ! j) (magnitudes ! j)])
                             [0..<numProbes s] magByProbe,
                           magnitudes, s)))
             (replicate ?P (Fin 0), replicate ?P (Fin 0), s)
           = Inr (?acc, mags', advance ?N s)"
    using magnitudeByProbe_loop_r [OF wf c0, of "replicate ?P (Fin 0)" "replicate ?P (Fin 0)" ?N]
    by auto
  have fin: "fold (\<lambda>i magByProbe. magByProbe[i := fdiv_r rnd (magByProbe ! i) (count_r rnd ?N)])
               [0..<?P] ?acc
             = map (spec_baseline_r rnd ?C (sample_values s)) [0..<?P]"
    using wf
    by (simp add: fold_update_all [where g = "\<lambda>i x. fdiv_r rnd x (count_r rnd ?N)"]
          spec_baseline_r_def fmean_r_def fsum_r_def length_sample_values)
  show ?thesis
    unfolding magnitudeByProbe_r_def loop by (simp add: fin)
qed

lemma magnitudeBySample_loop_r:
  assumes wf: "well_formed s" and c0: "cursor s = 0"
    and lms: "length ms = numSamples s" and lm: "length mags = numProbes s"
  shows "k \<le> numSamples s \<Longrightarrow>
         \<exists>mags'. length mags' = numProbes s \<and>
           for_range k
              (\<lambda>i (magBySample, sampleNames, magnitudes, s).
                 bindE (getNextMagnitudes_r rnd magnitudes s)
                   (\<lambda>(magnitudes, sampleName, s).
                      let sampleNames = strcpy sampleNames (i * row_width s) sampleName;
                          mag = fold (\<lambda>j mag. fadd_r rnd mag (fdiv_r rnd (magnitudes ! j) (B ! j)))
                                  [0..<numProbes s] (Fin 0)
                      in Inr (magBySample[i := fdiv_r rnd mag (count_r rnd (numProbes s))],
                              sampleNames, magnitudes, s)))
              (ms, ns, mags, s)
           = Inr (map (\<lambda>i. normalized_r rnd (numProbes s) (numChannels s) B (sample_values s ! i)) [0..<k]
                    @ drop k ms,
                  stored_names s k ns, mags', advance k s)"
proof (induction k)
  case 0
  show ?case using lm by (simp add: stored_names_def)
next
  case (Suc k)
  let ?P = "numProbes s" and ?C = "numChannels s"
  let ?m = "map (spec_magnitude_r rnd ?C (sample_values s ! k)) [0..<?P]"
  from Suc obtain mags' where l': "length mags' = ?P"
    and ih: "for_range k
              (\<lambda>i (magBySample, sampleNames, magnitudes, s).
                 bindE (getNextMagnitudes_r rnd magnitudes s)
                   (\<lambda>(magnitudes, sampleName, s).
                      let sampleNames = strcpy sampleNames (i * row_width s) sampleName;
                          mag = fold (\<lambda>j mag. fadd_r rnd mag (fdiv_r rnd (magnitudes ! j) (B ! j)))
                                  [0..<numProbes s] (Fin 0)
                      in Inr (magBySample[i := fdiv_r rnd mag (count_r rnd (numProbes s))],
                              sampleNames, magnitudes, s)))
              (ms, ns, mags, s)
           = Inr (map (\<lambda>i. normalized_r rnd ?P ?C B (sample_values s ! i)) [0..<k] @ drop k ms,
                  stored_names s k ns, mags', advance k s)"
    by auto
  from Suc.prems have k: "k < numSamples s" by simp
  have mag: "fdiv_r rnd (fold (\<lambda>j mag. fadd_r rnd mag (fdiv_r rnd (?m ! j) (B ! j))) [0..<?P] (Fin 0)) (count_r rnd ?P)
             = normalized_r rnd ?P ?C B (sample_values s ! k)"
  proof -
    have eq: "map (\<lambda>j. fdiv_r rnd (?m ! j) (B ! j)) [0..<?P]
          = map (\<lambda>j. fdiv_r rnd (spec_magnitude_r rnd ?C (sample_values s ! k) j) (B ! j)) [0..<?P]"
      by (rule map_cong [OF refl]) simp
    show ?thesis
      unfolding fold_accumulate_r eq by (simp add: normalized_r_def fmean_r_def fsum_r_def)
  qed
  have up: "(map (\<lambda>i. normalized_r rnd ?P ?C B (sample_values s ! i)) [0..<k] @ drop k ms)
              [k := normalized_r rnd ?P ?C B (sample_values s ! k)]
            = map (\<lambda>i. normalized_r rnd ?P ?C B (sample_values s ! i)) [0..<Suc k] @ drop (Suc k) ms"
    using k lms by (simp add: update_after_prefix)
  show ?case
    apply (rule exI [of _ ?m])
    apply (simp only: for_range_Suc ih)
    apply (simp only: bindE_Inr prod.case getNextMagnitudes_advance_r [OF wf c0 k l']
        Let_def advance_fields mag up stored_names_Suc)
    apply simp
    done
qed

lemma normalized_baseline_r:
  "normalized_r rnd P C (map (spec_baseline_r rnd C vs) [0..<P]) v = spec_sample_magnitude_r rnd P C vs v"
proof -
  have "map (\<lambda>i. fdiv_r rnd (spec_magnitude_r rnd C v i) (map (spec_baseline_r rnd C vs) [0..<P] ! i)) [0..<P]
        = map (\<lambda>i. fdiv_r rnd (spec_magnitude_r rnd C v i) (spec_baseline_r rnd C vs i)) [0..<P]"
    by (rule map_cong [OF refl]) simp
  then show ?thesis
    by (simp only: normalized_r_def spec_sample_magnitude_r_def)
qed

lemma magnitudeBySample_value_r:
  assumes wf: "well_formed s" and c0: "cursor s = 0"
    and lms: "length ms = numSamples s"
  shows "magnitudeBySample_r rnd ms B ns s =
           Inr (map (normalized_r rnd (numProbes s) (numChannels s) B) (sample_values s),
                stored_names s (numSamples s) ns, advance (numSamples s) s)"
proof -
  let ?N = "numSamples s"
  obtain mags' where
    loop: "for_range ?N
              (\<lambda>i (magBySample, sampleNames, magnitudes, s).
                 bindE (getNextMagnitudes_r rnd magnitudes s)
                   (\<lambda>(magnitudes, sampleName, s).
                      let sampleNames = strcpy sampleNames (i * row_width s) sampleName;
                          mag = fold (\<lambda>j mag. fadd_r rnd mag (fdiv_r rnd (magnitudes ! j) (B ! j)))
                                  [0..<numProbes s] (Fin 0)
                      in Inr (magBySample[i := fdiv_r rnd mag (count_r rnd (numProbes s))],
                              sampleNames, magnitudes, s)))
              (ms, ns, replicate (numProbes s) (Fin 0), s)
           = Inr (map (\<lambda>i. normalized_r rnd (numProbes s) (numChannels s) B (sample_values s ! i)) [0..<?N]
                    @ drop ?N ms,
                  stored_names s ?N ns, mags', advance ?N s)"
    using magnitudeBySample_loop_r [OF wf c0 lms, of "replicate (numProbes s) (Fin 0)" ?N rnd B ns]
    by auto
  have a: "map (\<lambda>i. normalized_r rnd (numProbes s) (numChannels s) B (sample_values s ! i)) [0..<?N]
           = map (normalized_r rnd (numProbes s) (numChannels s) B) (sample_values s)"
    by (rule map_nth_upt) (rule length_sample_values [OF wf])
  show ?thesis
    unfolding magnitudeBySample_r_def loop using lms by (simp add: a)
qed

lemma writeMagnitude_value_r:
  assumes wf: "well_formed s"
  shows "writeMagnitude_r rnd s =
           Inr (spec_magnitude_output_r rnd s,
                advance (numSamples s) (reset (advance (numSamples s) (reset s))))"
proof -
  have p1: "magnitudeByProbe_r rnd (replicate (numProbes (reset s)) (Fin 0)) (reset s) =
              Inr (map (spec_baseline_r rnd (numChannels s) (sample_values s)) [0..<numProbes s],
                   advance (numSamples s) (reset s))"
    using magnitudeByProbe_value_r [of "reset s"] wf by simp
  let ?s2 = "reset (advance (numSamples s) (reset s))"
  have p2: "magnitudeBySample_r rnd (replicate (numSamples s) (Fin 0))
              (map (spec_baseline_r rnd (numChannels s) (sample_values s)) [0..<numProbes s])
              (replicate (numSamples s * row_width s) None) ?s2
            = Inr (map (spec_sample_magnitude_r rnd (numProbes s) (numChannels s) (sample_values s))
                     (sample_values s),
                   stored_names s (numSamples s)
                     (replicate (numSamples s * row_width s) None),
                   advance (numSamples s) ?s2)"
    using magnitudeBySample_value_r [of ?s2 "replicate (numSamples s) (Fin 0)" rnd
        "map (spec_baseline_r rnd (numChannels s) (sample_values s)) [0..<numProbes s]"
        "replicate (numSamples s * row_width s) None"] wf
    by (simp add: normalized_baseline_r)
  show ?thesis
    unfolding writeMagnitude_r_def Let_def p1 bindE_Inr prod.case
    using wf
    by (simp add: p1 p2 spec_magnitude_output_r_def output_lines_stored_names
        length_sample_values)
qed

lemma well_formed_values:
  "well_formed s \<Longrightarrow> v \<in> set (sample_values s) \<Longrightarrow> numProbes s * numChannels s \<le> length v"
  by (auto simp: well_formed_def sample_values_def list_all_iff)

section \<open>The range of the exponent\<close>

text \<open>
  A positive number between bounds of 24 bits in the range of the normal numbers is rounded
  by \<open>round32\<close> as by \<open>round24\<close>, to a number between the same bounds.
\<close>

lemma normal_bounds_positive: "normal_bounds lo hi \<Longrightarrow> 0 < lo"
proof -
  assume "normal_bounds lo hi"
  then have "2 powr (- 126) \<le> lo"
    by (simp add: normal_bounds_def)
  moreover have "(0::real) < 2 powr (- 126)"
    by simp
  ultimately show ?thesis
    by (rule less_le_trans [rotated])
qed

lemma round24_value: "x \<noteq> 0 \<Longrightarrow> round24 x = Fin (value24 x)"
  by (simp add: round24_def value24_def)

lemma round_within:
  assumes x: "lo \<le> x" "x \<le> hi" and nb: "normal_bounds lo hi"
  shows "round32 x = round24 x" and "in_range lo hi (round24 x)"
proof -
  have lo: "0 < lo"
    by (rule normal_bounds_positive [OF nb])
  then have pos: "0 < x" and hi: "0 < hi"
    using x by simp_all
  have "value24 lo = lo" "value24 hi = hi"
    using nb lo hi round24_value [of lo] round24_value [of hi] by (simp_all add: normal_bounds_def)
  then have v: "lo \<le> value24 x" "value24 x \<le> hi"
    using value24_mono [OF lo x(1)] value24_mono [OF pos x(2)] by simp_all
  have r: "round24 x = Fin (value24 x)"
    using pos by (simp add: round24_value)
  have "\<bar>value24 x\<bar> < 2 ^ 128"
    using v lo nb by (simp add: normal_bounds_def)
  moreover have "2 powr (- 126) \<le> \<bar>x\<bar>"
    using nb x pos by (simp add: normal_bounds_def)
  ultimately show "round32 x = round24 x"
    unfolding r by (intro round32_normal [OF _ r])
  show "in_range lo hi (round24 x)"
    unfolding r using v by (simp add: in_range_def)
qed

lemma rounded_within:
  assumes "in_range lo hi a" and "normal_bounds lo hi"
  shows "rounded round32 a = rounded round24 a \<and> in_range lo hi (rounded round24 a)"
proof (cases a)
  case (Fin x)
  show ?thesis
  proof (cases "x = 0")
    case True
    then show ?thesis
      using Fin by (simp add: rounded_def in_range_def)
  next
    case False
    then have "lo \<le> x" "x \<le> hi"
      using assms(1) Fin by (simp_all add: in_range_def)
    from round_within [OF this assms(2)] show ?thesis
      using Fin by (simp add: rounded_def)
  qed
qed (use assms in \<open>simp_all add: rounded_def in_range_def\<close>)

lemma in_range_weaken:
  "in_range lo hi a \<Longrightarrow> lo' \<le> lo \<Longrightarrow> hi \<le> hi' \<Longrightarrow> in_range lo' hi' a"
  by (cases a) (auto simp: in_range_def)

lemma fadd_in_range:
  "in_range lo hi1 a \<Longrightarrow> in_range lo hi2 b \<Longrightarrow> 0 < lo \<Longrightarrow> 0 \<le> hi1 \<Longrightarrow> 0 \<le> hi2 \<Longrightarrow>
   in_range lo (hi1 + hi2) (fadd a b)"
  by (cases a; cases b) (auto simp: in_range_def)

lemma fsqrt_in_range:
  "in_range lo hi a \<Longrightarrow> 0 < lo \<Longrightarrow> in_range (sqrt lo) (sqrt hi) (fsqrt a)"
  by (cases a) (auto simp: in_range_def)

lemma fdiv_in_range:
  "in_range lo1 hi1 a \<Longrightarrow> in_range lo2 hi2 b \<Longrightarrow> 0 < lo1 \<Longrightarrow> 0 < lo2 \<Longrightarrow>
   in_range (lo1 / hi2) (hi1 / lo2) (fdiv a b)"
  by (cases a; cases b) (auto simp: in_range_def intro!: frac_le)

lemma normal_bounds_dyadic:
  assumes "- 126 \<le> l" and "0 < n" and "n < 2 ^ 24" and "m \<le> 104"
  shows "normal_bounds (2 powr of_int l) (of_nat n * 2 powr of_int m)"
proof -
  have a: "round24 (2 powr of_int l) = Fin (2 powr of_int l)"
    by (rule round24_dyadic [of 1 _ l]) simp_all
  have b: "round24 (of_nat n * 2 powr of_int m) = Fin (of_nat n * 2 powr of_int m)"
    by (rule round24_dyadic [of "int n" _ m]) (use assms in simp_all)
  have "(2::real) powr (- 126) \<le> 2 powr of_int l"
    using assms(1) by (intro powr_mono) simp_all
  moreover have "of_nat n * 2 powr of_int m < (2::real) ^ 128"
  proof -
    have "real n < real (2 ^ 24)"
      using assms(3) by (simp only: of_nat_less_iff)
    then have "real n < 2 ^ 24"
      by simp
    then have "of_nat n * 2 powr of_int m < (2::real) ^ 24 * 2 powr of_int m"
      by (intro mult_strict_right_mono) simp_all
    also have "\<dots> \<le> 2 ^ 24 * 2 powr 104"
      using assms(4) by (intro mult_left_mono powr_mono) simp_all
    also have "\<dots> = 2 ^ 128"
      by simp
    finally show ?thesis .
  qed
  ultimately show ?thesis
    using a b by (simp add: normal_bounds_def)
qed

text \<open>The operations of the magnitude computation on values in a range.\<close>

lemma p2_pos: "0 < p2 k"
  by (simp add: p2_def)

lemma p2_mono: "a \<le> b \<Longrightarrow> p2 a \<le> p2 b"
  by (simp add: p2_def)

lemma p2_add: "p2 a * p2 b = p2 (a + b)"
  by (simp add: p2_def powr_add)

lemma p2_diff: "p2 a / p2 b = p2 (a - b)"
  by (simp add: p2_def powr_diff)

lemma sqrt_p2: "sqrt (p2 (2 * k)) = p2 k"
proof (rule real_sqrt_unique)
  show "(p2 k)\<^sup>2 = p2 (2 * k)"
    by (simp add: power2_eq_square p2_add)
  show "0 \<le> p2 k"
    using p2_pos [of k] by simp
qed

lemma p2_0: "p2 0 = 1"
  by (simp add: p2_def)

lemma p2_nat: "p2 (int n) = 2 ^ n"
  by (simp add: p2_def powr_realpow)

lemma normal_bounds_multiple:
  "- 126 \<le> a \<Longrightarrow> 0 < n \<Longrightarrow> n < 2 ^ 24 \<Longrightarrow> b \<le> 104 \<Longrightarrow> normal_bounds (p2 a) (of_nat n * p2 b)"
  unfolding p2_def by (rule normal_bounds_dyadic)

lemma normal_bounds_p2:
  assumes "- 126 \<le> a" and "b \<le> 127"
  shows "normal_bounds (p2 a) (p2 b)"
proof -
  have a: "round24 (p2 a) = Fin (p2 a)" and b: "round24 (p2 b) = Fin (p2 b)"
    unfolding p2_def by (rule round24_dyadic [of 1]; simp)+
  have "p2 (- 126) \<le> p2 a"
    using assms(1) by (rule p2_mono)
  moreover have "p2 b \<le> p2 127"
    using assms(2) by (rule p2_mono)
  moreover have "p2 127 < 2 ^ 128"
    by (simp add: p2_def)
  ultimately show ?thesis
    using a b by (simp add: normal_bounds_def p2_def)
qed

lemma safe_agree: "safe a b f \<Longrightarrow> f round32 = f round24"
  by (simp add: safe_def)

lemma safe_range: "safe a b f \<Longrightarrow> in_range (p2 a) (p2 b) (f round24)"
  by (simp add: safe_def)

lemma safe_rounded:
  assumes f: "f round32 = f round24" and r: "in_range (p2 a) (p2 b) (f round24)"
    and a: "- 126 \<le> a" and b: "b \<le> 127"
  shows "safe a b (\<lambda>rnd. rounded rnd (f rnd))"
  unfolding safe_def f using rounded_within [OF r normal_bounds_p2 [OF a b]] .

lemma safe_fsqrt:
  assumes f: "safe (2 * a) (2 * b) f" and a: "- 126 \<le> a" and b: "b \<le> 127"
  shows "safe a b (\<lambda>rnd. fsqrt_r rnd (f rnd))"
  unfolding fsqrt_r_def
proof (rule safe_rounded [where f = "\<lambda>rnd. fsqrt (f rnd)", OF _ _ a b])
  show "fsqrt (f round32) = fsqrt (f round24)"
    by (simp only: safe_agree [OF f])
  show "in_range (p2 a) (p2 b) (fsqrt (f round24))"
    using fsqrt_in_range [OF safe_range [OF f] p2_pos] by (simp only: sqrt_p2)
qed

lemma safe_fdiv:
  assumes f: "safe a b f" and g: "safe c d g" and l: "- 126 \<le> a - d" and h: "b - c \<le> 127"
  shows "safe (a - d) (b - c) (\<lambda>rnd. fdiv_r rnd (f rnd) (g rnd))"
  unfolding fdiv_r_def
proof (rule safe_rounded [where f = "\<lambda>rnd. fdiv (f rnd) (g rnd)", OF _ _ l h])
  show "fdiv (f round32) (g round32) = fdiv (f round24) (g round24)"
    by (simp only: safe_agree [OF f] safe_agree [OF g])
  show "in_range (p2 (a - d)) (p2 (b - c)) (fdiv (f round24) (g round24))"
    using fdiv_in_range [OF safe_range [OF f] safe_range [OF g] p2_pos p2_pos]
    by (simp only: p2_diff)
qed

lemma safe_count:
  assumes "n < 2 ^ 24"
  shows "safe 0 24 (\<lambda>rnd. count_r rnd n)"
proof -
  have n: "\<bar>int n\<bar> < 2 ^ 24"
    using assms by simp
  have "real n < real (2 ^ 24)"
    using assms by (simp only: of_nat_less_iff)
  then have "real n \<le> 2 ^ 24"
    by simp
  moreover have "real n = 0 \<or> 1 \<le> real n"
    by (cases "n = 0") simp_all
  ultimately have "real n = 0 \<or> 1 \<le> real n \<and> real n \<le> 2 ^ 24"
    by blast
  then show ?thesis
    using round32_of_int [OF n] round24_of_int [OF n]
    by (simp add: safe_def count_r_def float_of_uint_def rounded_def in_range_def p2_0
          p2_nat [of 24, simplified])
qed

text \<open>
  A sum of fewer than \<open>2^24\<close> values from \<open>lo\<close> to \<open>M\<close>: after \<open>j\<close> additions the
  partial sum is at most \<open>j * M\<close>, a number of 24 bits when \<open>M\<close> is a power of two.
\<close>

lemma foldl_fadd_r_within:
  assumes M: "0 \<le> M" and nb: "\<And>j. 0 < j \<Longrightarrow> j \<le> n \<Longrightarrow> normal_bounds lo (of_nat j * M)"
  shows "\<forall>x \<in> set xs. in_range lo M x \<Longrightarrow> in_range lo (of_nat i * M) a \<Longrightarrow>
         i + length xs \<le> n \<Longrightarrow>
         foldl (fadd_r round32) a xs = foldl (fadd_r round24) a xs \<and>
         in_range lo (of_nat (i + length xs) * M) (foldl (fadd_r round24) a xs)"
proof (induction xs arbitrary: a i)
  case Nil
  then show ?case by simp
next
  case (Cons x xs)
  have b: "normal_bounds lo (of_nat (Suc i) * M)"
    using Cons.prems(3) by (intro nb) simp_all
  have s: "of_nat i * M + M = of_nat (Suc i) * M"
    by (simp add: algebra_simps)
  have x: "in_range lo M x"
    using Cons.prems(1) by simp
  have "in_range lo (of_nat i * M + M) (fadd a x)"
    using M by (intro fadd_in_range [OF Cons.prems(2) x normal_bounds_positive [OF b]]) simp_all
  then have "in_range lo (of_nat (Suc i) * M) (fadd a x)"
    by (simp only: s)
  from rounded_within [OF this b]
  have step: "fadd_r round32 a x = fadd_r round24 a x"
    and r: "in_range lo (of_nat (Suc i) * M) (fadd_r round24 a x)"
    by (simp_all add: fadd_r_def)
  have "foldl (fadd_r round32) (fadd_r round24 a x) xs = foldl (fadd_r round24) (fadd_r round24 a x) xs \<and>
        in_range lo (of_nat (Suc i + length xs) * M) (foldl (fadd_r round24) (fadd_r round24 a x) xs)"
    using Cons.prems by (intro Cons.IH [OF _ r]) simp_all
  then show ?case
    by (simp add: step)
qed

lemma safe_fsum:
  assumes g: "\<forall>x \<in> set xs. safe a b (g x)" and n: "length xs < 2 ^ 24"
    and a: "- 126 \<le> a" and b: "b \<le> 103"
  shows "safe a (b + 24) (\<lambda>rnd. fsum_r rnd (map (\<lambda>x. g x rnd) xs))"
proof -
  let ?ys = "map (\<lambda>x. g x round24) xs"
  have eq: "map (\<lambda>x. g x round32) xs = ?ys"
    using g by (intro map_cong [OF refl]) (simp add: safe_def)
  have r: "\<forall>y \<in> set ?ys. in_range (p2 a) (p2 b) y"
    using g by (auto simp: safe_range)
  have nb: "normal_bounds (p2 a) (of_nat j * p2 b)" if "0 < j" "j \<le> length xs" for j
    using that n a b by (intro normal_bounds_multiple) simp_all
  have z: "in_range (p2 a) (of_nat 0 * p2 b) (Fin 0)"
    by (simp add: in_range_def)
  have p: "0 \<le> p2 b"
    using p2_pos [of b] by simp
  from foldl_fadd_r_within [OF p nb r z, of "length xs"]
  have f: "foldl (fadd_r round32) (Fin 0) ?ys = foldl (fadd_r round24) (Fin 0) ?ys"
    and i: "in_range (p2 a) (of_nat (length xs) * p2 b) (foldl (fadd_r round24) (Fin 0) ?ys)"
    by simp_all
  have "real (length xs) < real (2 ^ 24)"
    using n by (simp only: of_nat_less_iff)
  then have "real (length xs) \<le> p2 24"
    by (simp add: p2_nat [of 24, simplified])
  then have "of_nat (length xs) * p2 b \<le> p2 24 * p2 b"
    using p by (rule mult_right_mono)
  then have "of_nat (length xs) * p2 b \<le> p2 (b + 24)"
    by (simp only: p2_add add.commute)
  with i have "in_range (p2 a) (p2 (b + 24)) (foldl (fadd_r round24) (Fin 0) ?ys)"
    by (rule in_range_weaken [OF _ order_refl])
  then show ?thesis
    unfolding safe_def fsum_r_def eq using f by simp
qed

lemma safe_fmean:
  assumes g: "\<forall>x \<in> set xs. safe a b (g x)" and n: "length xs < 2 ^ 24"
    and a: "- 126 \<le> a - 24" and b: "b \<le> 103"
  shows "safe (a - 24) (b + 24) (\<lambda>rnd. fmean_r rnd (map (\<lambda>x. g x rnd) xs))"
proof -
  have s: "safe a (b + 24) (\<lambda>rnd. fsum_r rnd (map (\<lambda>x. g x rnd) xs))"
    using a by (intro safe_fsum [OF g n _ b]) simp
  have "safe (a - 24) (b + 24 - 0) (\<lambda>rnd. fdiv_r rnd (fsum_r rnd (map (\<lambda>x. g x rnd) xs))
                                            (count_r rnd (length xs)))"
    using a b by (intro safe_fdiv [OF s safe_count [OF n]]) simp_all
  then show ?thesis
    by (simp add: fmean_r_def)
qed

text \<open>
  The ranges of the magnitude computation on moderate intensities: squares from \<open>2^-66\<close>
  to \<open>2^66\<close>, magnitudes from \<open>2^-33\<close> to \<open>2^45\<close>, baselines from \<open>2^-57\<close> to
  \<open>2^69\<close>, normalized magnitudes from \<open>2^-126\<close> to \<open>2^126\<close>.
\<close>

lemma safe_square:
  assumes "moderate x"
  shows "safe (- 66) 66 (\<lambda>rnd. fmul_r rnd x x)"
  unfolding fmul_r_def
proof (rule safe_rounded [where f = "\<lambda>rnd. fmul x x", OF refl])
  from assms obtain r where x: "x = Fin r" and r: "r = 0 \<or> (1 / 2 ^ 33 \<le> \<bar>r\<bar> \<and> \<bar>r\<bar> \<le> 2 ^ 33)"
    by (cases x) (simp_all add: moderate_def)
  have p: "p2 (- 33) = 1 / 2 ^ 33" "p2 33 = 2 ^ 33"
    by (simp_all add: p2_def powr_minus divide_simps)
  have b: "p2 (- 33) \<le> \<bar>r\<bar>" "\<bar>r\<bar> \<le> p2 33" if "r \<noteq> 0"
    using that r by (simp_all add: p)
  have z: "0 \<le> p2 (- 33)"
    using p2_pos [of "- 33"] by simp
  have "p2 (- 33) * p2 (- 33) \<le> \<bar>r\<bar> * \<bar>r\<bar> \<and> \<bar>r\<bar> * \<bar>r\<bar> \<le> p2 33 * p2 33" if "r \<noteq> 0"
    using b [OF that] z by (intro conjI mult_mono) simp_all
  then have "r \<noteq> 0 \<Longrightarrow> p2 (- 66) \<le> r * r \<and> r * r \<le> p2 66"
    by (simp add: p2_add)
  then show "in_range (p2 (- 66)) (p2 66) (fmul x x)"
    by (auto simp: x in_range_def)
qed simp_all

lemma safe_magnitude:
  assumes v: "\<forall>x \<in> set v. moderate x" and i: "i < P" and l: "P * C \<le> length v"
    and C: "C < 2 ^ 24"
  shows "safe (- 33) 45 (\<lambda>rnd. spec_magnitude_r rnd C v i)"
proof -
  have "safe (- 66) 66 (\<lambda>rnd. fmul_r rnd (v ! (i * C + j)) (v ! (i * C + j)))"
    if "j < C" for j
  proof -
    have "i * C + j < length v"
      using index_in_range [OF i that] l by simp
    then have "moderate (v ! (i * C + j))"
      using v by simp
    then show ?thesis
      by (rule safe_square)
  qed
  then have "\<forall>j \<in> set [0..<C]. safe (- 66) 66 (\<lambda>rnd. fmul_r rnd (v ! (i * C + j)) (v ! (i * C + j)))"
    by simp
  then have "safe (- 66) (66 + 24)
               (\<lambda>rnd. fsum_r rnd (map (\<lambda>j. fmul_r rnd (v ! (i * C + j)) (v ! (i * C + j))) [0..<C]))"
    using C by (intro safe_fsum [where g = "\<lambda>j rnd. fmul_r rnd (v ! (i * C + j)) (v ! (i * C + j))"])
      simp_all
  then have "safe (2 * (- 33)) (2 * 45)
               (\<lambda>rnd. fsum_r rnd (map (\<lambda>j. fmul_r rnd (v ! (i * C + j)) (v ! (i * C + j))) [0..<C]))"
    by simp
  then have "safe (- 33) 45
               (\<lambda>rnd. fsqrt_r rnd (fsum_r rnd (map (\<lambda>j. fmul_r rnd (v ! (i * C + j)) (v ! (i * C + j))) [0..<C])))"
    by (rule safe_fsqrt) simp_all
  then show ?thesis
    by (simp only: spec_magnitude_r_def)
qed

lemma safe_baseline:
  assumes vs: "\<forall>v \<in> set vs. (\<forall>x \<in> set v. moderate x) \<and> P * C \<le> length v"
    and i: "i < P" and C: "C < 2 ^ 24" and N: "length vs < 2 ^ 24"
  shows "safe (- 57) 69 (\<lambda>rnd. spec_baseline_r rnd C vs i)"
proof -
  have "\<forall>v \<in> set vs. safe (- 33) 45 (\<lambda>rnd. spec_magnitude_r rnd C v i)"
    using vs i C by (auto intro: safe_magnitude)
  then have "safe (- 33 - 24) (45 + 24)
               (\<lambda>rnd. fmean_r rnd (map (\<lambda>v. spec_magnitude_r rnd C v i) vs))"
    using N by (intro safe_fmean [where g = "\<lambda>v rnd. spec_magnitude_r rnd C v i"]) simp_all
  then show ?thesis
    by (simp add: spec_baseline_r_def)
qed

lemma safe_sample_magnitude:
  assumes vs: "\<forall>v \<in> set vs. (\<forall>x \<in> set v. moderate x) \<and> P * C \<le> length v"
    and v: "\<forall>x \<in> set v. moderate x" and l: "P * C \<le> length v"
    and C: "C < 2 ^ 24" and N: "length vs < 2 ^ 24" and P: "P < 2 ^ 24"
  shows "safe (- 126) 126 (\<lambda>rnd. spec_sample_magnitude_r rnd P C vs v)"
proof -
  have "safe (- 33 - 69) (45 - (- 57))
          (\<lambda>rnd. fdiv_r rnd (spec_magnitude_r rnd C v i) (spec_baseline_r rnd C vs i))"
    if "i < P" for i
    by (intro safe_fdiv [OF safe_magnitude [OF v that l C] safe_baseline [OF vs that C N]])
       simp_all
  then have "\<forall>i \<in> set [0..<P]. safe (- 102) 102
          (\<lambda>rnd. fdiv_r rnd (spec_magnitude_r rnd C v i) (spec_baseline_r rnd C vs i))"
    by simp
  then have "safe (- 102 - 24) (102 + 24)
          (\<lambda>rnd. fmean_r rnd (map (\<lambda>i. fdiv_r rnd (spec_magnitude_r rnd C v i)
                                           (spec_baseline_r rnd C vs i)) [0..<P]))"
    using P
    by (intro safe_fmean [where g = "\<lambda>i rnd. fdiv_r rnd (spec_magnitude_r rnd C v i)
                                           (spec_baseline_r rnd C vs i)"]) simp_all
  then show ?thesis
    by (simp add: spec_sample_magnitude_r_def)
qed

text \<open>
  On a dataset within range the computation in binary32 arithmetic is the computation with
  the rounding that has no bound on the exponent.
\<close>

lemma writeMagnitude_within_range:
  assumes wf: "well_formed s" and r: "within_range s"
  shows "writeMagnitude_r round32 s = writeMagnitude_r round24 s"
proof -
  let ?vs = "sample_values s"
  from r have N: "numSamples s < 2 ^ 24" and P: "numProbes s < 2 ^ 24"
    and C: "numChannels s < 2 ^ 24"
    by (simp_all add: within_range_def)
  have vs: "\<forall>v \<in> set ?vs. (\<forall>x \<in> set v. moderate x) \<and>
              numProbes s * numChannels s \<le> length v"
    using r well_formed_values [OF wf] by (auto simp: within_range_def list_all_iff)
  have len: "length ?vs < 2 ^ 24"
    using N by (simp add: length_sample_values [OF wf])
  have "map (spec_sample_magnitude_r round32 (numProbes s) (numChannels s) ?vs) ?vs
        = map (spec_sample_magnitude_r round24 (numProbes s) (numChannels s) ?vs) ?vs"
  proof (rule map_cong [OF refl])
    fix v assume v: "v \<in> set ?vs"
    then have "\<forall>x \<in> set v. moderate x" "numProbes s * numChannels s \<le> length v"
      using vs by simp_all
    from safe_agree [OF safe_sample_magnitude [OF vs this C len P]]
    show "spec_sample_magnitude_r round32 (numProbes s) (numChannels s) ?vs v
          = spec_sample_magnitude_r round24 (numProbes s) (numChannels s) ?vs v" .
  qed
  then show ?thesis
    by (simp only: writeMagnitude_value_r [OF wf] spec_magnitude_output_r_def)
qed

lemma magnitudeByProbe_within_range:
  assumes wf: "well_formed s" and r: "within_range s"
  shows "magnitudeByProbe_r round32 (replicate (numProbes s) (Fin 0)) (reset s)
         = magnitudeByProbe_r round24 (replicate (numProbes s) (Fin 0)) (reset s)"
proof -
  let ?vs = "sample_values s"
  from r have N: "numSamples s < 2 ^ 24" and C: "numChannels s < 2 ^ 24"
    by (simp_all add: within_range_def)
  have vs: "\<forall>v \<in> set ?vs. (\<forall>x \<in> set v. moderate x) \<and>
              numProbes s * numChannels s \<le> length v"
    using r well_formed_values [OF wf] by (auto simp: within_range_def list_all_iff)
  have len: "length ?vs < 2 ^ 24"
    using N by (simp add: length_sample_values [OF wf])
  have p: "magnitudeByProbe_r rnd (replicate (numProbes s) (Fin 0)) (reset s)
           = Inr (map (spec_baseline_r rnd (numChannels s) ?vs) [0..<numProbes s],
                  advance (numSamples s) (reset s))" for rnd
    using magnitudeByProbe_value_r [of "reset s" rnd] wf by simp
  have "map (spec_baseline_r round32 (numChannels s) ?vs) [0..<numProbes s]
        = map (spec_baseline_r round24 (numChannels s) ?vs) [0..<numProbes s]"
    by (rule map_cong [OF refl]) (simp add: safe_agree [OF safe_baseline [OF vs _ C len]])
  then show ?thesis
    by (simp only: p)
qed

text \<open>Every fixed-point intensity is in the range.\<close>

lemma moderate_uint16: "moderate (float_of_uint16 w)"
proof -
  define n where "n = unat w"
  have x: "float_of_uint16 w = Fin (real n)"
    by (simp only: float_of_uint16_def n_def)
  have n: "n < 2 ^ 16"
    unfolding n_def using unsigned_less [of w] by simp
  have "real n < real (2 ^ 16)"
    using n by (simp only: of_nat_less_iff)
  then have "real n \<le> 2 ^ 33"
    by simp
  moreover have "real n = 0 \<or> 1 \<le> real n"
    by (cases "n = 0") simp_all
  moreover have "(1::real) / 2 ^ 33 \<le> 1"
    by simp
  ultimately show ?thesis
    unfolding x by (auto simp: moderate_def)
qed

lemma within_range_fixed_point:
  assumes wf: "well_formed s" and fmt: "numberFormat s \<noteq> 0"
    and N: "numSamples s < 2 ^ 24" and P: "numProbes s < 2 ^ 24" and C: "numChannels s < 2 ^ 24"
    and I: "numProbes s * numChannels s < 2 ^ 31"
  shows "within_range s"
proof -
  have "list_all moderate v" if "v \<in> set (sample_values s)" for v
  proof -
    from that obtain name w where w: "(name, w) \<in> set (take (numSamples s) (records s))"
      and v: "v = numeric_values w"
      by (auto simp: sample_values_def)
    then have "matches_format (numberFormat s) w"
      using wf by (auto simp: well_formed_def list_all_iff)
    then obtain ws where "w = IntValues ws"
      using fmt by (cases w) (simp_all add: matches_format_def)
    then show ?thesis
      by (simp add: v numeric_values_def list_all_iff moderate_uint16)
  qed
  then show ?thesis
    using N P C I by (simp add: within_range_def list_all_iff)
qed

section \<open>Rescaling the intensities\<close>

text \<open>
  Where the rounding commutes with the multiplication by \<open>k\<close>, every magnitude and every
  baseline of the rescaled dataset is \<open>k\<close> times that of the dataset, and the quotients
  are the same.
\<close>

lemma rounded_scale:
  assumes "0 < c" and "scales rnd c"
  shows "rounded rnd (fmul (Fin c) a) = fmul (Fin c) (rounded rnd a)"
  using assms by (cases a) (simp_all add: rounded_def scales_def)

lemma fmul_positive: "0 < c \<Longrightarrow> 0 < d \<Longrightarrow> fmul (Fin c) (fmul (Fin d) a) = fmul (Fin (c * d)) a"
  by (cases a) (simp_all add: mult_ac)

lemma scales_square:
  assumes c: "0 < c" and r: "scales rnd c"
  shows "scales rnd (c * c)"
  unfolding scales_def
proof
  fix x
  have "rnd (c * c * x) = rnd (c * (c * x))"
    by (simp add: mult.assoc)
  also have "\<dots> = fmul (Fin c) (fmul (Fin c) (rnd x))"
    using r by (simp only: scales_def)
  finally show "rnd (c * c * x) = fmul (Fin (c * c)) (rnd x)"
    by (simp only: fmul_positive [OF c c])
qed

lemma fadd_scale_r:
  assumes c: "0 < c" and r: "scales rnd c"
  shows "fadd_r rnd (fmul (Fin c) a) (fmul (Fin c) b) = fmul (Fin c) (fadd_r rnd a b)"
  by (simp only: fadd_r_def fadd_scale [OF c] rounded_scale [OF c r])

lemma fmul_scale_r:
  assumes c: "0 < c" and r: "scales rnd c"
  shows "fmul_r rnd (fmul (Fin c) a) (fmul (Fin c) a) = fmul (Fin (c * c)) (fmul_r rnd a a)"
  by (simp only: fmul_r_def fmul_scale [OF c]
        rounded_scale [OF mult_pos_pos [OF c c] scales_square [OF c r]])

lemma fsqrt_scale_r:
  assumes c: "0 < c" and r: "scales rnd c"
  shows "fsqrt_r rnd (fmul (Fin (c * c)) a) = fmul (Fin c) (fsqrt_r rnd a)"
  by (simp only: fsqrt_r_def fsqrt_scale [OF c] rounded_scale [OF c r])

lemma fdiv_scale_divisor: "0 < c \<Longrightarrow> fdiv (fmul (Fin c) a) b = fmul (Fin c) (fdiv a b)"
  by (cases a; cases b) (simp_all add: zero_less_mult_iff)

lemma fdiv_scale_count_r:
  assumes c: "0 < c" and r: "scales rnd c"
  shows "fdiv_r rnd (fmul (Fin c) a) b = fmul (Fin c) (fdiv_r rnd a b)"
  by (simp only: fdiv_r_def fdiv_scale_divisor [OF c] rounded_scale [OF c r])

lemma fdiv_scale_both_r:
  "0 < c \<Longrightarrow> fdiv_r rnd (fmul (Fin c) a) (fmul (Fin c) b) = fdiv_r rnd a b"
  by (simp only: fdiv_r_def fdiv_scale_both)

lemma foldl_fadd_scale_r:
  assumes c: "0 < c" and r: "scales rnd c"
  shows "foldl (fadd_r rnd) (fmul (Fin c) a) (map (\<lambda>x. fmul (Fin c) (g x)) xs)
         = fmul (Fin c) (foldl (fadd_r rnd) a (map g xs))"
  by (induction xs arbitrary: a) (simp_all add: fadd_scale_r [OF c r])

lemma fsum_scale_r:
  assumes c: "0 < c" and r: "scales rnd c"
  shows "fsum_r rnd (map (\<lambda>x. fmul (Fin c) (g x)) xs) = fmul (Fin c) (fsum_r rnd (map g xs))"
  using foldl_fadd_scale_r [OF c r, of "Fin 0" g xs] by (simp add: fsum_r_def)

lemma spec_magnitude_scale_r:
  assumes k: "0 < k" and r: "scales rnd k"
    and i: "i < P" and l: "P * C \<le> length v"
  shows "spec_magnitude_r rnd C (map (fmul (Fin k)) v) i = fmul (Fin k) (spec_magnitude_r rnd C v i)"
proof -
  have "map (\<lambda>j. fmul_r rnd (map (fmul (Fin k)) v ! (i * C + j)) (map (fmul (Fin k)) v ! (i * C + j))) [0..<C]
        = map (\<lambda>j. fmul (Fin (k * k)) (fmul_r rnd (v ! (i * C + j)) (v ! (i * C + j)))) [0..<C]"
  proof (rule map_cong [OF refl])
    fix j assume "j \<in> set [0..<C]"
    then have "i * C + j < length v"
      using index_in_range [of i P j C] i l by simp
    then show "fmul_r rnd (map (fmul (Fin k)) v ! (i * C + j)) (map (fmul (Fin k)) v ! (i * C + j))
               = fmul (Fin (k * k)) (fmul_r rnd (v ! (i * C + j)) (v ! (i * C + j)))"
      by (simp add: fmul_scale_r [OF k r])
  qed
  then show ?thesis
    by (simp only: spec_magnitude_r_def
          fsum_scale_r [OF mult_pos_pos [OF k k] scales_square [OF k r]] fsqrt_scale_r [OF k r])
qed

lemma spec_baseline_scale_r:
  assumes k: "0 < k" and r: "scales rnd k"
    and i: "i < P" and l: "\<And>v. v \<in> set vs \<Longrightarrow> P * C \<le> length v"
  shows "spec_baseline_r rnd C (map (map (fmul (Fin k))) vs) i = fmul (Fin k) (spec_baseline_r rnd C vs i)"
proof -
  have "map (\<lambda>v. spec_magnitude_r rnd C v i) (map (map (fmul (Fin k))) vs)
        = map (\<lambda>v. fmul (Fin k) (spec_magnitude_r rnd C v i)) vs"
    by (simp add: spec_magnitude_scale_r [OF k r i l])
  then show ?thesis
    by (simp only: spec_baseline_r_def fmean_r_def fsum_scale_r [OF k r]
          fdiv_scale_count_r [OF k r] length_map)
qed

lemma spec_sample_magnitude_scale_r:
  assumes k: "0 < k" and r: "scales rnd k"
    and l: "\<And>v. v \<in> set vs \<Longrightarrow> P * C \<le> length v" and v: "P * C \<le> length v"
  shows "spec_sample_magnitude_r rnd P C (map (map (fmul (Fin k))) vs) (map (fmul (Fin k)) v)
         = spec_sample_magnitude_r rnd P C vs v"
proof -
  have "map (\<lambda>i. fdiv_r rnd (spec_magnitude_r rnd C (map (fmul (Fin k)) v) i)
                    (spec_baseline_r rnd C (map (map (fmul (Fin k))) vs) i)) [0..<P]
        = map (\<lambda>i. fdiv_r rnd (spec_magnitude_r rnd C v i) (spec_baseline_r rnd C vs i)) [0..<P]"
    using k
    by (intro map_cong [OF refl])
       (simp add: spec_magnitude_scale_r [OF k r _ v] spec_baseline_scale_r [OF k r _ l]
          fdiv_scale_both_r)
  then show ?thesis
    by (simp only: spec_sample_magnitude_r_def)
qed

lemma writeMagnitude_scaled_r:
  assumes wf: "well_formed s" and wf': "well_formed s'" and sc: "scaled k s s'" and k: "0 < k"
    and r: "scales rnd k"
  shows "outcome (writeMagnitude_r rnd s') = outcome (writeMagnitude_r rnd s)"
    and "outcome (magnitudeByProbe_r rnd (replicate (numProbes s') (Fin 0)) (reset s'))
         = map_sum id (map (fmul (Fin k)))
             (outcome (magnitudeByProbe_r rnd (replicate (numProbes s) (Fin 0)) (reset s)))"
proof -
  let ?P = "numProbes s" and ?C = "numChannels s" and ?vs = "sample_values s"
  from sc have f: "numProbes s' = ?P" "numChannels s' = ?C" "sample_names s' = sample_names s"
    "sample_values s' = map (map (fmul (Fin k))) ?vs"
    by (simp_all add: scaled_def)
  have l: "\<And>v. v \<in> set ?vs \<Longrightarrow> ?P * ?C \<le> length v"
    by (rule well_formed_values [OF wf])
  have a: "map (spec_sample_magnitude_r rnd ?P ?C (map (map (fmul (Fin k))) ?vs))
          (map (map (fmul (Fin k))) ?vs)
        = map (spec_sample_magnitude_r rnd ?P ?C ?vs) ?vs"
    unfolding map_map comp_def
    by (rule map_cong [OF refl]) (simp add: spec_sample_magnitude_scale_r [OF k r l l])
  show "outcome (writeMagnitude_r rnd s') = outcome (writeMagnitude_r rnd s)"
    unfolding writeMagnitude_value_r [OF wf] writeMagnitude_value_r [OF wf'] spec_magnitude_output_r_def
      f a
    by simp
  have b: "map (spec_baseline_r rnd ?C (map (map (fmul (Fin k))) ?vs)) [0..<?P]
        = map (fmul (Fin k)) (map (spec_baseline_r rnd ?C ?vs) [0..<?P])"
    by (simp add: spec_baseline_scale_r [OF k r _ l])
  show "outcome (magnitudeByProbe_r rnd (replicate (numProbes s') (Fin 0)) (reset s'))
         = map_sum id (map (fmul (Fin k)))
             (outcome (magnitudeByProbe_r rnd (replicate (numProbes s) (Fin 0)) (reset s)))"
    using magnitudeByProbe_value_r [of "reset s"] magnitudeByProbe_value_r [of "reset s'"] wf wf'
    by (simp add: f b)
qed

text \<open>In exact arithmetic every factor \<open>k > 0\<close> leaves the output unchanged.\<close>

lemma scales_exact: "scales Fin k"
  by (simp add: scales_def)

lemma writeMagnitude_scaled_exact:
  assumes "well_formed s" and "well_formed s'" and "scaled k s s'" and "0 < k"
  shows "outcome (writeMagnitude s') = outcome (writeMagnitude s)"
  using writeMagnitude_scaled_r(1) [OF assms scales_exact] by (simp only: writeMagnitude_exact)

text \<open>The runs on the concrete datasets.\<close>

lemma sqrt_36: "sqrt 36 = 6"
  by (rule real_sqrt_unique) simp_all

lemma sqrt_625: "sqrt 625 = 25"
  by (rule real_sqrt_unique) simp_all

lemma sqrt_900: "sqrt 900 = 30"
  by (rule real_sqrt_unique) simp_all

lemmas binade_simps = nearest_def round_half_even_def powr_minus Let_def

lemma round32_uneven:
  shows "round32 (17 / 3) = Fin (11883861 / 2097152)"
    and "round32 (85 / 3) = Fin (14854827 / 524288)"
    and "round32 (10485760 / 11883861) = Fin (7401713 / 8388608)"
    and "round32 (13107200 / 14854827) = Fin (7401713 / 8388608)"
    and "round32 (7401713 / 8388608) = Fin (7401713 / 8388608)"
    and "round32 (4194304 / 3961287) = Fin (1110257 / 1048576)"
    and "round32 (1110257 / 1048576) = Fin (1110257 / 1048576)"
    and "round32 (5242880 / 4951609) = Fin (8882055 / 8388608)"
    and "round32 (8882055 / 8388608) = Fin (8882055 / 8388608)"
proof -
  show "round32 (17 / 3) = Fin (11883861 / 2097152)"
    by (rule round32_in_binade [of 2]) (simp_all add: binade_simps)
  show "round32 (85 / 3) = Fin (14854827 / 524288)"
    by (rule round32_in_binade [of 4]) (simp_all add: binade_simps)
  show "round32 (10485760 / 11883861) = Fin (7401713 / 8388608)"
    by (rule round32_in_binade [of "- 1"]) (simp_all add: binade_simps)
  show "round32 (13107200 / 14854827) = Fin (7401713 / 8388608)"
    by (rule round32_in_binade [of "- 1"]) (simp_all add: binade_simps)
  show "round32 (7401713 / 8388608) = Fin (7401713 / 8388608)"
    by (rule round32_in_binade [of "- 1"]) (simp_all add: binade_simps)
  show "round32 (4194304 / 3961287) = Fin (1110257 / 1048576)"
    by (rule round32_in_binade [of 0]) (simp_all add: binade_simps)
  show "round32 (1110257 / 1048576) = Fin (1110257 / 1048576)"
    by (rule round32_in_binade [of 0]) (simp_all add: binade_simps)
  show "round32 (5242880 / 4951609) = Fin (8882055 / 8388608)"
    by (rule round32_in_binade [of 0]) (simp_all add: binade_simps)
  show "round32 (8882055 / 8388608) = Fin (8882055 / 8388608)"
    by (rule round32_in_binade [of 0]) (simp_all add: binade_simps)
qed

lemmas run_simps_r =
  writeMagnitude_r_def magnitudeByProbe_r_def magnitudeBySample_r_def getNextMagnitudes_r_def
  fadd_r_def fmul_r_def fdiv_r_def fsqrt_r_def count_r_def rounded_def
  round32_one round32_numeral round32_numeral_half round32_overflow round32_uneven
  sqrt_25 sqrt_36 sqrt_100 sqrt_625 sqrt_900

lemma well_formed_rescaled:
  "well_formed uneven" "well_formed uneven_doubled" "well_formed uneven_times_five"
  "well_formed scenario_float" "well_formed scenario_huge"
  by (simp_all add: well_formed_def uneven_def uneven_doubled_def uneven_times_five_def
       scenario_float_def scenario_huge_def matches_format_def numeric_values_def)

lemma scaled_uneven:
  "scaled (2 powr of_int 1) uneven uneven_doubled" "scaled 5 uneven uneven_times_five"
  by (simp_all add: scaled_def uneven_def uneven_doubled_def uneven_times_five_def
        sample_names_def sample_values_def numeric_values_def float_of_uint16_def)

lemma scaled_huge: "scaled (2 ^ 64) scenario_float scenario_huge"
  by (simp add: scaled_def scenario_float_def scenario_huge_def sample_names_def
        sample_values_def numeric_values_def)

lemma scenario_huge_binary32:
  "round32 (3 * 2 ^ 64) = Fin (3 * 2 ^ 64)" "round32 (4 * 2 ^ 64) = Fin (4 * 2 ^ 64)"
  "round32 (6 * 2 ^ 64) = Fin (6 * 2 ^ 64)" "round32 (8 * 2 ^ 64) = Fin (8 * 2 ^ 64)"
  using round32_dyadic [of 3 64 "3 * 2 ^ 64"] round32_dyadic [of 4 64 "4 * 2 ^ 64"]
    round32_dyadic [of 6 64 "6 * 2 ^ 64"] round32_dyadic [of 8 64 "8 * 2 ^ 64"]
  by simp_all

lemma within_range_uneven: "within_range uneven" "within_range uneven_doubled"
  "within_range uneven_times_five"
  by (simp_all add: within_range_def moderate_def uneven_def uneven_doubled_def
        uneven_times_five_def sample_values_def numeric_values_def float_of_uint16_def)

lemma not_within_range_huge: "\<not> within_range scenario_huge"
  by (simp add: within_range_def moderate_def scenario_huge_def sample_values_def
        numeric_values_def)

text \<open>
  Claim C5 says that multiplying every intensity by a factor \<open>k > 0\<close> leaves the normalized
  magnitude of every sample unchanged, when no baseline is zero. That holds in exact
  arithmetic and not in the binary32 arithmetic of QC.cpp. The three samples of \<open>uneven\<close>
  have the baseline \<open>17/3\<close>, which is rounded down; with every intensity multiplied by 5
  the baseline \<open>85/3\<close> is rounded up, and the metric of the second and the third sample
  changes from \<open>1110257 / 2^20\<close>, printed as 1.058824, to \<open>8882055 / 2^23\<close>, printed as
  1.058823. With every intensity of the floating-point scenario multiplied by \<open>2^64\<close> the
  squares overflow: both baselines are infinite and both metrics are NaN, where the
  scenario has the baselines 2.5 and 5 and the metrics 1 and 1. No baseline is zero in
  either case.
\<close>

theorem magnitude_scale_counterexample:
  "well_formed uneven \<and> well_formed uneven_times_five \<and> scaled 5 uneven uneven_times_five \<and>
   outcome (magnitudeByProbe_r round32 [Fin 0] (reset uneven))
     = Inr [Fin (11883861 / 2097152)] \<and>
   outcome (magnitudeByProbe_r round32 [Fin 0] (reset uneven_times_five))
     = Inr [Fin (14854827 / 524288)] \<and>
   outcome (writeMagnitude_r round32 uneven)
     = Inr [(''S1'', Fin (7401713 / 8388608)), (''S2'', Fin (1110257 / 1048576)),
            (''S3'', Fin (1110257 / 1048576))] \<and>
   outcome (writeMagnitude_r round32 uneven_times_five)
     = Inr [(''S1'', Fin (7401713 / 8388608)), (''S2'', Fin (8882055 / 8388608)),
            (''S3'', Fin (8882055 / 8388608))] \<and>
   well_formed scenario_float \<and> well_formed scenario_huge \<and>
   scaled (2 ^ 64) scenario_float scenario_huge \<and>
   outcome (magnitudeByProbe_r round32 [Fin 0, Fin 0] (reset scenario_float))
     = Inr [Fin (5 / 2), Fin 5] \<and>
   outcome (magnitudeByProbe_r round32 [Fin 0, Fin 0] (reset scenario_huge))
     = Inr [PInf, PInf] \<and>
   outcome (writeMagnitude_r round32 scenario_float) = Inr [(''S1'', Fin 1), (''S2'', Fin 1)] \<and>
   outcome (writeMagnitude_r round32 scenario_huge) = Inr [(''S1'', NaN), (''S2'', NaN)]"
proof -
  have "outcome (magnitudeByProbe_r round32 [Fin 0] (reset uneven))
          = Inr [Fin (11883861 / 2097152)]"
    and "outcome (writeMagnitude_r round32 uneven)
          = Inr [(''S1'', Fin (7401713 / 8388608)), (''S2'', Fin (1110257 / 1048576)),
                 (''S3'', Fin (1110257 / 1048576))]"
    by (simp_all add: uneven_def run_simps run_simps_r)
  moreover have "outcome (magnitudeByProbe_r round32 [Fin 0] (reset uneven_times_five))
          = Inr [Fin (14854827 / 524288)]"
    and "outcome (writeMagnitude_r round32 uneven_times_five)
          = Inr [(''S1'', Fin (7401713 / 8388608)), (''S2'', Fin (8882055 / 8388608)),
                 (''S3'', Fin (8882055 / 8388608))]"
    by (simp_all add: uneven_times_five_def run_simps run_simps_r)
  moreover have "outcome (magnitudeByProbe_r round32 [Fin 0, Fin 0] (reset scenario_float))
          = Inr [Fin (5 / 2), Fin 5]"
    and "outcome (writeMagnitude_r round32 scenario_float)
          = Inr [(''S1'', Fin 1), (''S2'', Fin 1)]"
    by (simp_all add: scenario_float_def run_simps run_simps_r)
  moreover have "outcome (magnitudeByProbe_r round32 [Fin 0, Fin 0] (reset scenario_huge))
          = Inr [PInf, PInf]"
    and "outcome (writeMagnitude_r round32 scenario_huge) = Inr [(''S1'', NaN), (''S2'', NaN)]"
    by (simp_all add: scenario_huge_def run_simps run_simps_r)
  ultimately show ?thesis
    using well_formed_rescaled scaled_uneven(2) scaled_huge by blast
qed

text \<open>A power of two leaves the output unchanged where the exponent has no bound.\<close>

lemma writeMagnitude_scaled_binary32:
  assumes "well_formed s" and "well_formed s'" and "scaled (2 powr of_int n) s s'"
    and "outcome (writeMagnitude_r round32 s) = outcome (writeMagnitude_r round24 s)"
    and "outcome (writeMagnitude_r round32 s') = outcome (writeMagnitude_r round24 s')"
  shows "outcome (writeMagnitude_r round32 s') = outcome (writeMagnitude_r round32 s)"
proof -
  have "outcome (writeMagnitude_r round24 s') = outcome (writeMagnitude_r round24 s)"
    by (rule writeMagnitude_scaled_r(1) [OF assms(1-3) _ scales_round24]) simp
  then show ?thesis
    by (simp only: assms(4,5))
qed

text \<open>
  Claim C5, amended. A factor that is a power of two changes no significand, and in a
  dataset within range no result of the computation leaves the range of the normal
  binary32 numbers. For a dataset within range and the dataset with every intensity
  multiplied by \<open>2^n\<close>, \<open>n\<close> an integer, also within range: in binary32 arithmetic
  the output of \<open>writeMagnitude\<close>, the names and the normalized magnitudes, is the
  same for both, whether a baseline is zero or not, and every baseline of the second is
  \<open>2^n\<close> times the baseline of the first. Every fixed-point dataset with fewer than
  \<open>2^24\<close> samples, probes and channels and fewer than \<open>2^31\<close> values in a record is
  within range.
\<close>

theorem magnitude_scale_invariant_binary32:
  assumes "well_formed s" and "well_formed s'" and "scaled (2 powr of_int n) s s'"
    and "within_range s" and "within_range s'"
  shows "outcome (writeMagnitude_r round32 s') = outcome (writeMagnitude_r round32 s) \<and>
         outcome (magnitudeByProbe_r round32 (replicate (numProbes s') (Fin 0)) (reset s'))
           = map_sum id (map (fmul (Fin (2 powr of_int n))))
               (outcome (magnitudeByProbe_r round32 (replicate (numProbes s) (Fin 0)) (reset s)))"
proof
  show "outcome (writeMagnitude_r round32 s') = outcome (writeMagnitude_r round32 s)"
    by (rule writeMagnitude_scaled_binary32 [OF assms(1-3)])
       (simp_all only: writeMagnitude_within_range [OF assms(1,4)]
          writeMagnitude_within_range [OF assms(2,5)])
  have k: "(0::real) < 2 powr of_int n"
    by simp
  show "outcome (magnitudeByProbe_r round32 (replicate (numProbes s') (Fin 0)) (reset s'))
           = map_sum id (map (fmul (Fin (2 powr of_int n))))
               (outcome (magnitudeByProbe_r round32 (replicate (numProbes s) (Fin 0)) (reset s)))"
    unfolding magnitudeByProbe_within_range [OF assms(1,4)]
      magnitudeByProbe_within_range [OF assms(2,5)]
    by (rule writeMagnitude_scaled_r(2) [OF assms(1-3) k scales_round24])
qed

theorem magnitude_scale_invariant_binary32_witness:
  "well_formed uneven \<and> well_formed uneven_doubled \<and>
   scaled (2 powr of_int 1) uneven uneven_doubled \<and>
   within_range uneven \<and> within_range uneven_doubled \<and>
   outcome (magnitudeByProbe_r round32 [Fin 0] (reset uneven)) = Inr [Fin (11883861 / 2097152)] \<and>
   outcome (writeMagnitude_r round32 uneven)
     = Inr [(''S1'', Fin (7401713 / 8388608)), (''S2'', Fin (1110257 / 1048576)),
            (''S3'', Fin (1110257 / 1048576))] \<and>
   outcome (magnitudeByProbe_r round32 [Fin 0] (reset uneven_doubled))
     = Inr [Fin (11883861 / 1048576)] \<and>
   outcome (writeMagnitude_r round32 uneven_doubled)
     = Inr [(''S1'', Fin (7401713 / 8388608)), (''S2'', Fin (1110257 / 1048576)),
            (''S3'', Fin (1110257 / 1048576))]"
proof -
  have p: "replicate (numProbes uneven) (Fin 0) = [Fin 0]"
    "replicate (numProbes uneven_doubled) (Fin 0) = [Fin 0]"
    by (simp_all add: uneven_def uneven_doubled_def)
  have b: "outcome (magnitudeByProbe_r round32 [Fin 0] (reset uneven))
           = Inr [Fin (11883861 / 2097152)]"
    and c: "outcome (writeMagnitude_r round32 uneven)
           = Inr [(''S1'', Fin (7401713 / 8388608)), (''S2'', Fin (1110257 / 1048576)),
                  (''S3'', Fin (1110257 / 1048576))]"
    by (simp_all add: uneven_def run_simps run_simps_r)
  have "outcome (writeMagnitude_r round32 uneven_doubled)
          = Inr [(''S1'', Fin (7401713 / 8388608)), (''S2'', Fin (1110257 / 1048576)),
                 (''S3'', Fin (1110257 / 1048576))] \<and>
        outcome (magnitudeByProbe_r round32 [Fin 0] (reset uneven_doubled))
          = Inr [Fin (11883861 / 1048576)]"
    using magnitude_scale_invariant_binary32 [OF well_formed_rescaled(1) well_formed_rescaled(2) scaled_uneven(1)
              within_range_uneven(1) within_range_uneven(2)]
    unfolding p b c by simp
  then show ?thesis
    using well_formed_rescaled(1,2) scaled_uneven(1) within_range_uneven b c by blast
qed

section \<open>A zero baseline\<close>

lemma spec_sample_magnitude_zero_baseline:
  assumes "i < P" and "spec_baseline C vs i = Fin 0"
  shows "\<not> is_finite (spec_sample_magnitude P C vs v)"
proof -
  have "fdiv (spec_magnitude C v i) (spec_baseline C vs i)
        \<in> set (map (\<lambda>i. fdiv (spec_magnitude C v i) (spec_baseline C vs i)) [0..<P])"
    using assms(1) by simp
  moreover have "\<not> is_finite (fdiv (spec_magnitude C v i) (spec_baseline C vs i))"
    by (simp add: assms(2) not_finite_fdiv_zero)
  ultimately show ?thesis
    unfolding spec_sample_magnitude_def fmean_def
    by (intro not_finite_fdiv_count not_finite_fsum)
qed

text \<open>
  Claim C7. When the baseline of some probe is zero, the magnitude computation neither
  stops nor skips the probe: it yields one entry for every sample, under its name, and the
  metric of every sample is not finite (an infinity or NaN), because the quotient by the
  zero baseline is not finite and the sum and the final division keep it so.
\<close>

theorem zero_baseline_is_not_finite:
  assumes wf: "well_formed s"
    and B: "outcome (magnitudeByProbe (replicate (numProbes s) (Fin 0)) (reset s)) = Inr B"
    and i: "i < numProbes s" and z: "B ! i = Fin 0"
  shows "\<exists>out. outcome (writeMagnitude s) = Inr out \<and> map fst out = sample_names s \<and>
               list_all (\<lambda>(name, x). \<not> is_finite x) out"
proof -
  let ?P = "numProbes s" and ?C = "numChannels s" and ?vs = "sample_values s"
  have "magnitudeByProbe (replicate ?P (Fin 0)) (reset s) =
          Inr (map (spec_baseline ?C ?vs) [0..<?P], advance (numSamples s) (reset s))"
    using magnitudeByProbe_value [of "reset s"] wf by simp
  with B have "B = map (spec_baseline ?C ?vs) [0..<?P]" by simp
  with i z have b: "spec_baseline ?C ?vs i = Fin 0" by simp
  let ?out = "zip (sample_names s) (map (spec_sample_magnitude ?P ?C ?vs) ?vs)"
  have o: "outcome (writeMagnitude s) = Inr ?out"
    using writeMagnitude_value [OF wf] by (simp add: spec_magnitude_output_def)
  have n: "map fst ?out = sample_names s"
    using wf by (simp add: length_sample_names length_sample_values)
  have f: "list_all (\<lambda>(name, x). \<not> is_finite x) ?out"
    unfolding list_all_iff
    by (auto dest!: set_zip_rightD simp: spec_sample_magnitude_zero_baseline [OF i b])
  from o n f show ?thesis by blast
qed

theorem zero_baseline_is_not_finite_witness:
  "well_formed zero_baseline \<and>
   outcome (magnitudeByProbe [Fin 0, Fin 0] (reset zero_baseline)) = Inr [Fin 0, Fin 5] \<and>
   (0::nat) < numProbes zero_baseline \<and> [Fin 0, Fin 5] ! 0 = Fin 0 \<and>
   outcome (writeMagnitude zero_baseline) = Inr [(''S1'', NaN)] \<and>
   (\<exists>out. outcome (writeMagnitude zero_baseline) = Inr out \<and>
          map fst out = sample_names zero_baseline \<and>
          list_all (\<lambda>(name, x). \<not> is_finite x) out)"
proof -
  have w: "well_formed zero_baseline"
    by (simp add: well_formed_def zero_baseline_def matches_format_def numeric_values_def)
  have r: "replicate (numProbes zero_baseline) (Fin 0) = [Fin 0, Fin 0]"
    by (simp add: zero_baseline_def numeral_2_eq_2)
  have b: "outcome (magnitudeByProbe (replicate (numProbes zero_baseline) (Fin 0))
             (reset zero_baseline)) = Inr [Fin 0, Fin 5]"
    unfolding r by (simp add: zero_baseline_def run_simps sqrt_25)
  have i: "0 < numProbes zero_baseline" by (simp add: zero_baseline_def)
  have z: "[Fin 0, Fin 5] ! 0 = Fin 0" by simp
  have m: "outcome (writeMagnitude zero_baseline) = Inr [(''S1'', NaN)]"
    by (simp add: zero_baseline_def run_simps sqrt_25)
  show ?thesis
    using zero_baseline_is_not_finite [OF w b i z] w b i m unfolding r by simp
qed

section \<open>Sample names\<close>




end
